theory Spec2Isabelle
  imports Complex_Main "HOL-Library.Char_ord" "HOL-Library.List_Lexorder"
    "HOL-Library.Product_Lexorder"
begin

section \<open>Duplicate detection for job listings\<close>

text \<open>
  A shallow embedding of \<^verbatim>\<open>analytics/scripts/duplicate_detector.py\<close>: the text
  normaliser, the pairwise scorers, the four detection strategies, the consolidation of
  their matches and the removal of duplicates.

  Conventions. Python floats are modelled as \<^typ>\<open>real\<close>. A Python string is a
  \<^typ>\<open>string\<close> whose characters are the code points below 256; the character classes
  of \<^verbatim>\<open>str.lower\<close>, \<^verbatim>\<open>str.isspace\<close> and the regular-expression classes
  \<^verbatim>\<open>\s\<close> and \<^verbatim>\<open>\w\<close> are tabulated for that range. Exceptions are values of
  \<open>py_error\<close>, returned on the left of a sum. \<open>Unmodelled\<close> is not an exception of
  the code: it is the value of the embedding on the batches that it does not cover (see
  \<open>preprocess_data\<close>), so that no property of a result is stated for them.
\<close>

datatype py_error = KeyError string | StopIteration | Unmodelled

subsection \<open>Character classes\<close>

definition is_space :: "char \<Rightarrow> bool" where
  "is_space c =
     (let n = (of_char c :: nat)
      in (9 \<le> n \<and> n \<le> 13) \<or> (28 \<le> n \<and> n \<le> 32) \<or> n = 133 \<or> n = 160)"

definition is_word :: "char \<Rightarrow> bool" where
  "is_word c =
     (let n = (of_char c :: nat)
      in (48 \<le> n \<and> n \<le> 57) \<or> (65 \<le> n \<and> n \<le> 90) \<or> n = 95 \<or> (97 \<le> n \<and> n \<le> 122)
         \<or> n = 170 \<or> n = 178 \<or> n = 179 \<or> n = 181 \<or> n = 185 \<or> n = 186
         \<or> (188 \<le> n \<and> n \<le> 190) \<or> (192 \<le> n \<and> n \<le> 214) \<or> (216 \<le> n \<and> n \<le> 246)
         \<or> 248 \<le> n)"

definition lower_char :: "char \<Rightarrow> char" where
  "lower_char c =
     (let n = (of_char c :: nat)
      in if (65 \<le> n \<and> n \<le> 90) \<or> (192 \<le> n \<and> n \<le> 222 \<and> n \<noteq> 215)
         then char_of (n + 32) else c)"

definition lower :: "string \<Rightarrow> string" where
  "lower s = map lower_char s"

subsection \<open>String primitives\<close>

text \<open>\<^verbatim>\<open>s.strip()\<close>: whitespace is dropped at both ends.\<close>

definition strip :: "string \<Rightarrow> string" where
  "strip s = rev (dropWhile is_space (rev (dropWhile is_space s)))"

text \<open>\<^verbatim>\<open>re.sub(r'\s+', ' ', s)\<close>: every maximal run of whitespace becomes one space.\<close>

function collapse_ws :: "string \<Rightarrow> string" where
  "collapse_ws [] = []"
| "collapse_ws (c # cs) =
     (if is_space c then CHR '' '' # collapse_ws (dropWhile is_space cs)
      else c # collapse_ws cs)"
  by pat_completeness auto
termination
  by (relation "measure length") (auto simp: length_dropWhile_le less_Suc_eq_le)

text \<open>\<^verbatim>\<open>re.sub(r'[^\w\s-]', ' ', s)\<close>: a character that is neither a word character,
  nor whitespace, nor a hyphen becomes a space.\<close>

definition replace_special :: "string \<Rightarrow> string" where
  "replace_special s =
     map (\<lambda>c. if is_word c \<or> is_space c \<or> c = CHR ''-'' then c else CHR '' '') s"

text \<open>\<^verbatim>\<open>s.split()\<close>: the maximal runs of non-whitespace characters, in order.\<close>

function split_ws :: "string \<Rightarrow> string list" where
  "split_ws s =
     (case dropWhile is_space s of
        [] \<Rightarrow> []
      | c # cs \<Rightarrow> takeWhile (\<lambda>x. \<not> is_space x) (c # cs)
                  # split_ws (dropWhile (\<lambda>x. \<not> is_space x) (c # cs)))"
  by pat_completeness auto
termination
proof (relation "measure length", goal_cases)
  case 1
  show ?case by simp
next
  case (2 s c cs)
  have a: "length (dropWhile is_space s) \<le> length s"
    by (rule length_dropWhile_le)
  have c: "\<not> is_space c"
    using 2 hd_dropWhile [of is_space s] by (metis list.sel(1) list.distinct(1))
  have "length (dropWhile (\<lambda>x. \<not> is_space x) (c # cs)) \<le> length cs"
    using c by (simp add: length_dropWhile_le)
  then show ?case using a 2 by simp
qed

declare split_ws.simps [simp del]

text \<open>\<^verbatim>\<open>' '.join(words)\<close>.\<close>

fun join_sp :: "string list \<Rightarrow> string" where
  "join_sp [] = []"
| "join_sp [w] = w"
| "join_sp (w # v # ws) = w @ CHR '' '' # join_sp (v # ws)"

subsection \<open>Record normaliser\<close>

text \<open>\<^verbatim>\<open>_clean_text\<close>: the empty string is returned as it is; otherwise lowercase,
  collapse whitespace and strip, then blank out special characters.\<close>

definition clean_text :: "string \<Rightarrow> string" where
  "clean_text text =
     (if text = [] then []
      else replace_special (strip (collapse_ws (lower text))))"

definition noise_words :: "string list" where
  "noise_words = [''job'', ''position'', ''role'', ''vacancy'', ''opportunity'', ''career'']"

definition normalize_text :: "string \<Rightarrow> string" where
  "normalize_text text =
     (if text = [] then []
      else join_sp (filter (\<lambda>w. w \<notin> set noise_words) (split_ws text)))"

text \<open>
  \<^verbatim>\<open>re.sub(rf'\b{suffix}\b', '', s)\<close> for a literal, non-empty pattern. The scan goes
  left to right and remembers the character before the current position (\<open>None\<close> at the
  start of the string). \<^verbatim>\<open>\b\<close> holds between two positions exactly when one side is a
  word character and the other is not, the outside of the string counting as a non-word.
\<close>

definition is_word_opt :: "char option \<Rightarrow> bool" where
  "is_word_opt p = (case p of None \<Rightarrow> False | Some c \<Rightarrow> is_word c)"

definition boundary :: "char option \<Rightarrow> char option \<Rightarrow> bool" where
  "boundary p n = (is_word_opt p \<noteq> is_word_opt n)"

definition head_opt :: "string \<Rightarrow> char option" where
  "head_opt s = (case s of [] \<Rightarrow> None | c # _ \<Rightarrow> Some c)"

definition match_here :: "string \<Rightarrow> char option \<Rightarrow> string \<Rightarrow> bool" where
  "match_here pat prev s =
     (pat \<noteq> [] \<and> take (length pat) s = pat
      \<and> boundary prev (head_opt s)
      \<and> boundary (Some (last pat)) (head_opt (drop (length pat) s)))"

function sub_word :: "string \<Rightarrow> char option \<Rightarrow> string \<Rightarrow> string" where
  "sub_word pat prev [] = []"
| "sub_word pat prev (c # cs) =
     (if match_here pat prev (c # cs)
      then sub_word pat (Some (last pat)) (drop (length pat) (c # cs))
      else c # sub_word pat (Some c) cs)"
  by pat_completeness auto
termination
  by (relation "measure (\<lambda>(pat, prev, s). length s)") (auto simp: match_here_def)

definition suffixes :: "string list" where
  "suffixes = [''pvt ltd'', ''private limited'', ''ltd'', ''inc'', ''corp'', ''corporation'',
               ''company'', ''co'', ''limited'', ''llc'', ''plc'']"

text \<open>\<^verbatim>\<open>_normalize_company_name\<close>: lowercase, delete each suffix in the order of the
  list, strip.\<close>

definition normalize_company_name :: "string \<Rightarrow> string" where
  "normalize_company_name company =
     (if company = [] then []
      else strip (fold (\<lambda>suffix normalized. sub_word suffix None normalized)
                       suffixes (lower company)))"

subsection \<open>String similarity\<close>

text \<open>
  The scorers call \<^verbatim>\<open>SequenceMatcher(None, a, b).ratio()\<close> of Python's standard
  \<^verbatim>\<open>difflib\<close>. With \<^verbatim>\<open>isjunk = None\<close> the junk set is empty, so the two loops of
  \<^verbatim>\<open>find_longest_match\<close> that extend a block over junk never run; \<^verbatim>\<open>autojunk\<close>
  keeps its default \<^verbatim>\<open>True\<close>.

  \<^verbatim>\<open>__chain_b\<close>: \<open>b2j\<close> gives, for an element, the ascending list of its positions in
  \<open>b\<close>; when \<open>b\<close> has at least 200 elements, an element with more than
  \<open>len(b) // 100 + 1\<close> positions is popular and loses its entry.
\<close>

definition b2j :: "string \<Rightarrow> char \<Rightarrow> nat list" where
  "b2j b x =
     (let idxs = filter (\<lambda>j. b ! j = x) [0..<length b]
      in if 200 \<le> length b \<and> length b div 100 + 1 < length idxs then [] else idxs)"

text \<open>\<^verbatim>\<open>j2len.get(j-1, 0)\<close>: for \<open>j = 0\<close> the key \<open>-1\<close> is never present.\<close>

definition j2lenget :: "(nat \<rightharpoonup> nat) \<Rightarrow> nat \<Rightarrow> nat" where
  "j2lenget j2len j =
     (if j = 0 then 0 else case j2len (j - 1) of None \<Rightarrow> 0 | Some v \<Rightarrow> v)"

text \<open>
  The inner loop of \<^verbatim>\<open>find_longest_match\<close> over the positions \<open>j\<close> of \<open>a[i]\<close> in
  \<open>b\<close>; the state is \<open>(newj2len, besti, bestj, bestsize)\<close>. \<open>i - k + 1\<close> is written
  \<open>i + 1 - k\<close> over the naturals (\<open>k \<le> i + 1\<close>, see \<open>flm_inner_ok\<close> below). The
  windows of the calls that \<open>ratio\<close> makes lie inside the two sequences, where
  \<open>a ! i\<close> is \<^verbatim>\<open>a[i]\<close>.
\<close>

fun flm_inner ::
  "(nat \<rightharpoonup> nat) \<Rightarrow> nat \<Rightarrow> nat \<Rightarrow> nat \<Rightarrow> nat list
     \<Rightarrow> (nat \<rightharpoonup> nat) \<times> nat \<times> nat \<times> nat \<Rightarrow> (nat \<rightharpoonup> nat) \<times> nat \<times> nat \<times> nat" where
  "flm_inner j2len i blo bhi [] st = st"
| "flm_inner j2len i blo bhi (j # js) (newj2len, besti, bestj, bestsize) =
     (if j < blo then flm_inner j2len i blo bhi js (newj2len, besti, bestj, bestsize)
      else if bhi \<le> j then (newj2len, besti, bestj, bestsize)
      else let k = j2lenget j2len j + 1;
               newj2len' = newj2len(j \<mapsto> k)
           in if bestsize < k
              then flm_inner j2len i blo bhi js (newj2len', i + 1 - k, j + 1 - k, k)
              else flm_inner j2len i blo bhi js (newj2len', besti, bestj, bestsize))"

text \<open>The outer loop over \<open>i\<close> in \<open>range(alo, ahi)\<close>; the state is
  \<open>(j2len, besti, bestj, bestsize)\<close>.\<close>

fun flm_outer ::
  "string \<Rightarrow> string \<Rightarrow> nat \<Rightarrow> nat \<Rightarrow> nat list
     \<Rightarrow> (nat \<rightharpoonup> nat) \<times> nat \<times> nat \<times> nat \<Rightarrow> (nat \<rightharpoonup> nat) \<times> nat \<times> nat \<times> nat" where
  "flm_outer a b blo bhi [] st = st"
| "flm_outer a b blo bhi (i # is) (j2len, besti, bestj, bestsize) =
     flm_outer a b blo bhi is
       (flm_inner j2len i blo bhi (b2j b (a ! i)) (Map.empty, besti, bestj, bestsize))"

text \<open>The two loops that extend the best block by equal elements on each end.\<close>

function extend_back :: "string \<Rightarrow> string \<Rightarrow> nat \<Rightarrow> nat \<Rightarrow> nat \<times> nat \<times> nat \<Rightarrow> nat \<times> nat \<times> nat" where
  "extend_back a b alo blo (besti, bestj, bestsize) =
     (if alo < besti \<and> blo < bestj \<and> a ! (besti - 1) = b ! (bestj - 1)
      then extend_back a b alo blo (besti - 1, bestj - 1, bestsize + 1)
      else (besti, bestj, bestsize))"
  by pat_completeness auto
termination
  by (relation "measure (\<lambda>(a, b, alo, blo, besti, bestj, bestsize). besti)") auto

declare extend_back.simps [simp del]

function extend_fwd :: "string \<Rightarrow> string \<Rightarrow> nat \<Rightarrow> nat \<Rightarrow> nat \<times> nat \<times> nat \<Rightarrow> nat \<times> nat \<times> nat" where
  "extend_fwd a b ahi bhi (besti, bestj, bestsize) =
     (if besti + bestsize < ahi \<and> bestj + bestsize < bhi
         \<and> a ! (besti + bestsize) = b ! (bestj + bestsize)
      then extend_fwd a b ahi bhi (besti, bestj, bestsize + 1)
      else (besti, bestj, bestsize))"
  by pat_completeness auto
termination
  by (relation "measure (\<lambda>(a, b, ahi, bhi, besti, bestj, bestsize). ahi - (besti + bestsize))")
     auto

declare extend_fwd.simps [simp del]

definition find_longest_match ::
  "string \<Rightarrow> string \<Rightarrow> nat \<Rightarrow> nat \<Rightarrow> nat \<Rightarrow> nat \<Rightarrow> nat \<times> nat \<times> nat" where
  "find_longest_match a b alo ahi blo bhi =
     (case flm_outer a b blo bhi [alo..<ahi] (Map.empty, alo, blo, 0) of
        (j2len, besti, bestj, bestsize) \<Rightarrow>
          extend_fwd a b ahi bhi (extend_back a b alo blo (besti, bestj, bestsize)))"

text \<open>
  Bounds on the block that \<open>find_longest_match\<close> returns: it lies inside the two
  windows. The recursion over the windows terminates because of them.
\<close>

definition j2len_ok :: "nat \<Rightarrow> nat \<Rightarrow> nat \<Rightarrow> nat \<Rightarrow> (nat \<rightharpoonup> nat) \<Rightarrow> bool" where
  "j2len_ok rows alo blo bhi m =
     (\<forall>j v. m j = Some v \<longrightarrow> 1 \<le> v \<and> v \<le> rows \<and> v + blo \<le> j + 1 \<and> j < bhi)"

definition best_ok :: "nat \<Rightarrow> nat \<Rightarrow> nat \<Rightarrow> nat \<Rightarrow> nat \<times> nat \<times> nat \<Rightarrow> bool" where
  "best_ok alo ahi blo bhi best =
     (case best of (besti, bestj, bestsize) \<Rightarrow>
        alo \<le> besti \<and> blo \<le> bestj
        \<and> (bestsize = 0 \<longrightarrow> besti = alo \<and> bestj = blo)
        \<and> (0 < bestsize \<longrightarrow> besti + bestsize \<le> ahi \<and> bestj + bestsize \<le> bhi))"

lemma j2lenget_le:
  assumes "j2len_ok rows alo blo bhi m" and "blo \<le> j"
  shows "j2lenget m j \<le> rows \<and> j2lenget m j + blo \<le> j"
proof (cases "j = 0")
  case True
  then show ?thesis using assms by (simp add: j2lenget_def)
next
  case False
  show ?thesis
  proof (cases "m (j - 1)")
    case None
    then show ?thesis using False assms by (simp add: j2lenget_def)
  next
    case (Some v)
    then have "v \<le> rows \<and> v + blo \<le> (j - 1) + 1"
      using assms(1) by (auto simp: j2len_ok_def)
    then show ?thesis using False Some by (simp add: j2lenget_def)
  qed
qed

lemma flm_inner_ok:
  assumes "j2len_ok (i - alo) alo blo bhi j2len" and "alo \<le> i"
    and "j2len_ok (i + 1 - alo) alo blo bhi new"
    and "best_ok alo (i + 1) blo bhi best"
    and "flm_inner j2len i blo bhi js (new, best) = (new', best')"
  shows "j2len_ok (i + 1 - alo) alo blo bhi new' \<and> best_ok alo (i + 1) blo bhi best'"
  using assms(3-5)
proof (induction js arbitrary: new best)
  case Nil
  then show ?case by simp
next
  case (Cons j js)
  obtain bi bj bs where best: "best = (bi, bj, bs)" by (cases best)
  show ?case
  proof (cases "j < blo")
    case True
    then show ?thesis using Cons best by simp
  next
    case lo: False
    show ?thesis
    proof (cases "bhi \<le> j")
      case True
      then show ?thesis using Cons lo best by simp
    next
      case hi: False
      define k where "k = j2lenget j2len j + 1"
      have kb: "k \<le> i + 1 - alo \<and> k + blo \<le> j + 1 \<and> 1 \<le> k"
        using j2lenget_le [OF assms(1), of j] lo assms(2) by (auto simp: k_def)
      have new_ok: "j2len_ok (i + 1 - alo) alo blo bhi (new(j \<mapsto> k))"
        using Cons.prems(1) kb hi by (auto simp: j2len_ok_def)
      show ?thesis
      proof (cases "bs < k")
        case True
        have b: "best_ok alo (i + 1) blo bhi (i + 1 - k, j + 1 - k, k)"
          using kb hi assms(2) by (auto simp: best_ok_def)
        have "flm_inner j2len i blo bhi js (new(j \<mapsto> k), i + 1 - k, j + 1 - k, k) = (new', best')"
          using Cons.prems(3) lo hi True best by (simp add: k_def Let_def)
        from Cons.IH [OF new_ok b this] show ?thesis .
      next
        case False
        have "flm_inner j2len i blo bhi js (new(j \<mapsto> k), best) = (new', best')"
          using Cons.prems(3) lo hi False best by (simp add: k_def Let_def)
        from Cons.IH [OF new_ok Cons.prems(2) this] show ?thesis .
      qed
    qed
  qed
qed

lemma best_ok_mono: "best_ok alo ahi blo bhi best \<Longrightarrow> ahi \<le> ahi' \<Longrightarrow> best_ok alo ahi' blo bhi best"
  by (auto simp: best_ok_def)

lemma flm_outer_ok:
  assumes "j2len_ok (i - alo) alo blo bhi j2len" and "alo \<le> i" and "i \<le> ahi"
    and "best_ok alo i blo bhi best"
    and "flm_outer a b blo bhi [i..<ahi] (j2len, best) = (j2len', best')"
  shows "best_ok alo ahi blo bhi best'"
  using assms
proof (induction "ahi - i" arbitrary: i j2len best)
  case 0
  then show ?case by simp
next
  case (Suc n)
  then have lt: "i < ahi" by simp
  obtain new1 best1 where
    step: "flm_inner j2len i blo bhi (b2j b (a ! i)) (Map.empty, best) = (new1, best1)"
    by (cases "flm_inner j2len i blo bhi (b2j b (a ! i)) (Map.empty, best)") auto
  have e: "j2len_ok (i + 1 - alo) alo blo bhi Map.empty" by (simp add: j2len_ok_def)
  have b: "best_ok alo (i + 1) blo bhi best"
    using Suc.prems(4) by (rule best_ok_mono) simp
  from flm_inner_ok [OF Suc.prems(1) Suc.prems(2) e b step]
  have ok1: "j2len_ok (Suc i - alo) alo blo bhi new1" "best_ok alo (Suc i) blo bhi best1" by simp_all
  obtain bi bj bs where best: "best = (bi, bj, bs)" by (cases best)
  have "flm_outer a b blo bhi [Suc i..<ahi] (new1, best1) = (j2len', best')"
    using Suc.prems(5) lt step best by (simp add: upt_rec [of i ahi])
  moreover have "n = ahi - Suc i" using Suc.hyps(2) by simp
  ultimately show ?case
    using Suc.hyps(1) [of "Suc i" new1 best1] ok1 Suc.prems(2) lt by simp
qed

lemma extend_back_ok:
  "best_ok alo ahi blo bhi best \<Longrightarrow> best_ok alo ahi blo bhi (extend_back a b alo blo best)"
proof (induction a b alo blo best rule: extend_back.induct)
  case (1 a b alo blo besti bestj bestsize)
  show ?case
  proof (cases "alo < besti \<and> blo < bestj \<and> a ! (besti - 1) = b ! (bestj - 1)")
    case True
    have "best_ok alo ahi blo bhi (besti - 1, bestj - 1, bestsize + 1)"
      using "1.prems" True by (auto simp: best_ok_def)
    then show ?thesis using "1.IH" True by (subst extend_back.simps) simp
  next
    case False
    then show ?thesis using "1.prems" by (subst extend_back.simps) auto
  qed
qed

lemma extend_fwd_ok:
  "best_ok alo ahi blo bhi best \<Longrightarrow> best_ok alo ahi blo bhi (extend_fwd a b ahi bhi best)"
proof (induction a b ahi bhi best rule: extend_fwd.induct)
  case (1 a b ahi bhi besti bestj bestsize)
  show ?case
  proof (cases "besti + bestsize < ahi \<and> bestj + bestsize < bhi
         \<and> a ! (besti + bestsize) = b ! (bestj + bestsize)")
    case True
    have "best_ok alo ahi blo bhi (besti, bestj, bestsize + 1)"
      using "1.prems" True by (auto simp: best_ok_def)
    then show ?thesis using "1.IH" True by (subst extend_fwd.simps) simp
  next
    case False
    then show ?thesis using "1.prems" by (subst extend_fwd.simps) auto
  qed
qed

lemma flm_best_ok: "best_ok alo ahi blo bhi (find_longest_match a b alo ahi blo bhi)"
proof -
  obtain m best where
    o: "flm_outer a b blo bhi [alo..<ahi] (Map.empty, alo, blo, 0) = (m, best)"
    by (cases "flm_outer a b blo bhi [alo..<ahi] (Map.empty, alo, blo, 0)") auto
  have b0: "best_ok alo alo blo bhi (alo, blo, 0)" by (simp add: best_ok_def)
  have "best_ok alo ahi blo bhi best"
  proof (cases "alo \<le> ahi")
    case True
    have e: "j2len_ok (alo - alo) alo blo bhi Map.empty" by (simp add: j2len_ok_def)
    show ?thesis by (rule flm_outer_ok [OF e _ True b0 o]) simp
  next
    case False
    then have "best = (alo, blo, 0)" using o by simp
    then show ?thesis by (simp add: best_ok_def)
  qed
  then have "best_ok alo ahi blo bhi (extend_fwd a b ahi bhi (extend_back a b alo blo best))"
    by (intro extend_fwd_ok extend_back_ok)
  moreover have "find_longest_match a b alo ahi blo bhi = extend_fwd a b ahi bhi (extend_back a b alo blo best)"
    using o by (cases best) (simp add: find_longest_match_def)
  ultimately show ?thesis by simp
qed

lemma flm_bounds:
  assumes "find_longest_match a b alo ahi blo bhi = (i, j, k)"
  shows "alo \<le> i \<and> blo \<le> j \<and> (0 < k \<longrightarrow> i + k \<le> ahi \<and> j + k \<le> bhi)"
  using flm_best_ok [of alo ahi blo bhi a b] assms by (simp add: best_ok_def)

text \<open>
  The loop of \<^verbatim>\<open>get_matching_blocks\<close>. \<open>queue\<close> is the Python list used as a stack:
  its head is the element that \<^verbatim>\<open>queue.pop()\<close> returns next.
\<close>

function matching_blocks_loop ::
  "string \<Rightarrow> string \<Rightarrow> (nat \<times> nat \<times> nat \<times> nat) list \<Rightarrow> (nat \<times> nat \<times> nat) list
     \<Rightarrow> (nat \<times> nat \<times> nat) list" where
  "matching_blocks_loop a b [] matching_blocks = matching_blocks"
| "matching_blocks_loop a b ((alo, ahi, blo, bhi) # queue) matching_blocks =
     (case find_longest_match a b alo ahi blo bhi of
        (i, j, k) \<Rightarrow>
          if k = 0 then matching_blocks_loop a b queue matching_blocks
          else matching_blocks_loop a b
                 ((if i + k < ahi \<and> j + k < bhi then [(i + k, ahi, j + k, bhi)] else [])
                  @ (if alo < i \<and> blo < j then [(alo, i, blo, j)] else [])
                  @ queue)
                 (matching_blocks @ [(i, j, k)]))"
  by pat_completeness auto
termination
proof (relation "measure (\<lambda>(a, b, queue, blocks).
         sum_list (map (\<lambda>(alo, ahi, blo, bhi). 2 * (ahi - alo) + 1) queue))", goal_cases)
  case 1
  show ?case by simp
next
  case 2
  then show ?case by simp
next
  case 3
  then show ?case by (auto dest!: flm_bounds [OF sym])
qed

declare matching_blocks_loop.simps [simp del]

text \<open>The loop of \<^verbatim>\<open>get_matching_blocks\<close> that merges adjacent blocks; the state is
  the block \<open>(i1, j1, k1)\<close> to compare against and the list \<open>non_adjacent\<close>.\<close>

fun collapse_adjacent ::
  "(nat \<times> nat \<times> nat) list \<Rightarrow> nat \<times> nat \<times> nat \<Rightarrow> (nat \<times> nat \<times> nat) list
     \<Rightarrow> (nat \<times> nat \<times> nat) list" where
  "collapse_adjacent [] (i1, j1, k1) non_adjacent =
     (if k1 \<noteq> 0 then non_adjacent @ [(i1, j1, k1)] else non_adjacent)"
| "collapse_adjacent ((i2, j2, k2) # rest) (i1, j1, k1) non_adjacent =
     (if i1 + k1 = i2 \<and> j1 + k1 = j2
      then collapse_adjacent rest (i1, j1, k1 + k2) non_adjacent
      else collapse_adjacent rest (i2, j2, k2)
             (if k1 \<noteq> 0 then non_adjacent @ [(i1, j1, k1)] else non_adjacent))"

text \<open>\<^verbatim>\<open>get_matching_blocks\<close>: the blocks of the loop, sorted, merged, and closed by
  the sentinel \<open>(len(a), len(b), 0)\<close>.\<close>

definition get_matching_blocks :: "string \<Rightarrow> string \<Rightarrow> (nat \<times> nat \<times> nat) list" where
  "get_matching_blocks a b =
     collapse_adjacent
       (sort (matching_blocks_loop a b [(0, length a, 0, length b)] [])) (0, 0, 0) []
     @ [(length a, length b, 0)]"

text \<open>\<^verbatim>\<open>ratio\<close>: \<open>matches\<close> is the sum of the block sizes, and
  \<^verbatim>\<open>_calculate_ratio\<close> gives \<open>2.0 * matches / length\<close>, or 1.0 when both sequences are
  empty.\<close>

definition block_sizes :: "(nat \<times> nat \<times> nat) list \<Rightarrow> nat" where
  "block_sizes blocks = sum_list (map (\<lambda>(i, j, k). k) blocks)"

definition ratio :: "string \<Rightarrow> string \<Rightarrow> real" where
  "ratio a b =
     (let matches = block_sizes (get_matching_blocks a b);
          len = length a + length b
      in if len \<noteq> 0 then 2 * real matches / real len else 1)"

subsection \<open>Data model\<close>

text \<open>The dataclass \<^verbatim>\<open>DuplicateMatch\<close>.\<close>

record duplicate_match =
  job1_id :: string
  job2_id :: string
  similarity_score :: real
  match_type :: string
  reasons :: "string list"
  confidence :: real

text \<open>The configuration dictionary and \<^verbatim>\<open>_default_config\<close>.\<close>

record similarity_thresholds =
  exact_match :: real
  high_similarity :: real
  medium_similarity :: real
  low_similarity :: real

record field_weights =
  weight_title :: real
  weight_company :: real
  weight_location :: real
  weight_description :: real
  weight_salary :: real

record config =
  thresholds :: similarity_thresholds
  weights :: field_weights
  fuzzy_threshold :: real
  min_confidence :: real
  enable_advanced_matching :: bool

definition default_config :: config where
  "default_config =
     \<lparr> thresholds = \<lparr> exact_match = 1, high_similarity = 9 / 10,
                      medium_similarity = 7 / 10, low_similarity = 5 / 10 \<rparr>,
       weights = \<lparr> weight_title = 4 / 10, weight_company = 3 / 10,
                   weight_location = 15 / 100, weight_description = 1 / 10,
                   weight_salary = 5 / 100 \<rparr>,
       fuzzy_threshold = 8 / 10,
       min_confidence = 6 / 10,
       enable_advanced_matching = True \<rparr>"

text \<open>
  A job dictionary of the input list. A key is \<open>Absent\<close>, holds \<^verbatim>\<open>None\<close> (\<open>Null\<close>),
  or holds a string; other value types are not modelled.
\<close>

datatype cell = Absent | Null | Text string

record raw_job =
  job_id :: cell
  title :: cell
  company :: cell
  location :: cell
  description :: cell
  salary :: cell
  source :: cell

text \<open>
  A row of the preprocessed data frame, with the columns that the strategies read. A text
  column that the frame does not have is \<open>None\<close> in every row, so \<^verbatim>\<open>'c' in row\<close> is
  \<open>c row \<noteq> None\<close>. \<open>row_source\<close> is \<open>None\<close> where the frame has no \<^verbatim>\<open>source\<close>
  column or the row holds no string there (such a row equals no source value in
  \<^verbatim>\<open>df['source'] == s\<close>).
\<close>

record job_row =
  row_id :: string
  row_source :: "string option"
  title_clean :: "string option"
  title_normalized :: "string option"
  company_normalized :: "string option"
  location_clean :: "string option"
  description_clean :: "string option"
  fingerprint :: string

subsection \<open>Preprocessing\<close>

definition has_column :: "(raw_job \<Rightarrow> cell) \<Rightarrow> raw_job list \<Rightarrow> bool" where
  "has_column field jobs = list_ex (\<lambda>job. field job \<noteq> Absent) jobs"

text \<open>\<^verbatim>\<open>fillna('')\<close> on a cell.\<close>

definition cell_text :: "cell \<Rightarrow> string" where
  "cell_text c = (case c of Text s \<Rightarrow> s | _ \<Rightarrow> [])"

text \<open>\<^verbatim>\<open>str(n)\<close> for an index \<open>n\<close>.\<close>

function str_nat :: "nat \<Rightarrow> string" where
  "str_nat n =
     (if n < 10 then [char_of (48 + n)]
      else str_nat (n div 10) @ [char_of (48 + n mod 10)])"
  by pat_completeness auto
termination
  by (relation "measure id") auto

declare str_nat.simps [simp del]

text \<open>
  The \<^verbatim>\<open>id\<close> column of the frame: the ids of the jobs when some job has the key, the
  indices as strings otherwise. Where the column exists and a job has no string in it,
  pandas stores \<^verbatim>\<open>NaN\<close> or \<^verbatim>\<open>None\<close> as the id of the row, which is no string and which
  \<^verbatim>\<open>sorted\<close> refuses to compare with one; such a batch is not covered, and the column
  is \<open>None\<close>.
\<close>

definition id_column :: "raw_job list \<Rightarrow> string list option" where
  "id_column jobs =
     (if has_column job_id jobs
      then those (map (\<lambda>job. case job_id job of Text s \<Rightarrow> Some s | _ \<Rightarrow> None) jobs)
      else Some (map str_nat [0..<length jobs]))"

definition opt_text :: "string option \<Rightarrow> string" where
  "opt_text x = (case x of None \<Rightarrow> [] | Some s \<Rightarrow> s)"

text \<open>\<^verbatim>\<open>_generate_fingerprint\<close>; the digest \<^verbatim>\<open>hashlib.md5(...).hexdigest()\<close> is the
  parameter \<open>md5\<close>.\<close>

definition generate_fingerprint ::
  "(string \<Rightarrow> string) \<Rightarrow> string option \<Rightarrow> string option \<Rightarrow> string option \<Rightarrow> string" where
  "generate_fingerprint md5 title_n company_n location_c =
     md5 (opt_text title_n @ ''|'' @ opt_text company_n @ ''|'' @ opt_text location_c)"

text \<open>
  \<^verbatim>\<open>_preprocess_data\<close>. The columns of \<^verbatim>\<open>pd.DataFrame(jobs_data)\<close> are the keys
  that occur in some job. The cleaned columns are added only for the text fields the
  frame has; \<^verbatim>\<open>df['title_clean']\<close> and \<^verbatim>\<open>df['company_clean']\<close> are then read
  without a check, which raises \<^verbatim>\<open>KeyError\<close> when the column was not added.
\<close>

definition preprocess_row ::
  "(string \<Rightarrow> string) \<Rightarrow> bool \<Rightarrow> bool \<Rightarrow> string \<Rightarrow> raw_job \<Rightarrow> job_row" where
  "preprocess_row md5 has_location has_description ident job =
     (let title_c = clean_text (cell_text (title job));
          company_c = clean_text (cell_text (company job));
          title_n = Some (normalize_text title_c);
          company_n = Some (normalize_company_name company_c);
          location_c = (if has_location
                        then Some (clean_text (cell_text (location job))) else None);
          description_c = (if has_description
                           then Some (clean_text (cell_text (description job))) else None)
      in \<lparr> row_id = ident,
           row_source = (case source job of Text s \<Rightarrow> Some s | _ \<Rightarrow> None),
           title_clean = Some title_c,
           title_normalized = title_n,
           company_normalized = company_n,
           location_clean = location_c,
           description_clean = description_c,
           fingerprint = generate_fingerprint md5 title_n company_n location_c \<rparr>)"

definition preprocess_data ::
  "(string \<Rightarrow> string) \<Rightarrow> raw_job list \<Rightarrow> py_error + job_row list" where
  "preprocess_data md5 jobs =
     (if \<not> has_column title jobs then Inl (KeyError ''title_clean'')
      else if \<not> has_column company jobs then Inl (KeyError ''company_clean'')
      else case id_column jobs of
             None \<Rightarrow> Inl Unmodelled
           | Some ids \<Rightarrow>
               Inr (map (\<lambda>(ident, job).
                           preprocess_row md5 (has_column location jobs)
                             (has_column description jobs) ident job)
                        (zip ids jobs)))"

subsection \<open>Pairwise similarity scorer\<close>

text \<open>
  One block of the scorer: when the column is in both rows, the weighted ratio is added to
  \<open>total_similarity\<close> and the weight to \<open>total_weight\<close>.
\<close>

definition add_field ::
  "string option \<Rightarrow> string option \<Rightarrow> real \<Rightarrow> real \<times> real \<Rightarrow> real \<times> real" where
  "add_field f1 f2 w totals =
     (case (f1, f2) of
        (Some x, Some y) \<Rightarrow> (fst totals + ratio x y * w, snd totals + w)
      | _ \<Rightarrow> totals)"

definition calculate_fuzzy_similarity :: "config \<Rightarrow> job_row \<Rightarrow> job_row \<Rightarrow> real" where
  "calculate_fuzzy_similarity cfg job1 job2 =
     (let w = weights cfg;
          t1 = add_field (title_clean job1) (title_clean job2) (weight_title w) (0, 0);
          t2 = add_field (company_normalized job1) (company_normalized job2)
                 (weight_company w) t1;
          t3 = add_field (location_clean job1) (location_clean job2) (weight_location w) t2;
          t4 = add_field (description_clean job1) (description_clean job2)
                 (weight_description w) t3
      in if 0 < snd t4 then fst t4 / snd t4 else 0)"

definition calculate_cross_source_similarity :: "job_row \<Rightarrow> job_row \<Rightarrow> real" where
  "calculate_cross_source_similarity job1 job2 =
     (let t1 = add_field (title_clean job1) (title_clean job2) (6 / 10) (0, 0);
          t2 = add_field (company_normalized job1) (company_normalized job2) (4 / 10) t1
      in if 0 < snd t2 then fst t2 / snd t2 else 0)"

definition get_similarity_reasons :: "job_row \<Rightarrow> job_row \<Rightarrow> string list" where
  "get_similarity_reasons job1 job2 =
     (case (title_clean job1, title_clean job2) of
        (Some x, Some y) \<Rightarrow>
          (if 9 / 10 < ratio x y then [''very_similar_titles'']
           else if 7 / 10 < ratio x y then [''similar_titles''] else [])
      | _ \<Rightarrow> [])
     @ (case (company_normalized job1, company_normalized job2) of
        (Some x, Some y) \<Rightarrow>
          (if 9 / 10 < ratio x y then [''same_company'']
           else if 7 / 10 < ratio x y then [''similar_company''] else [])
      | _ \<Rightarrow> [])
     @ (case (location_clean job1, location_clean job2) of
        (Some x, Some y) \<Rightarrow> (if 9 / 10 < ratio x y then [''same_location''] else [])
      | _ \<Rightarrow> [])"

subsection \<open>Detection strategies\<close>

text \<open>The index pairs \<open>i < j < n\<close> in the order of the nested loops.\<close>

definition index_pairs :: "nat \<Rightarrow> (nat \<times> nat) list" where
  "index_pairs n = concat (map (\<lambda>i. map (\<lambda>j. (i, j)) [i + 1..<n]) [0..<n])"

text \<open>\<^verbatim>\<open>_find_exact_duplicates\<close>: \<^verbatim>\<open>groupby\<close> visits the fingerprints in sorted order and
  keeps the rows of a group in frame order.\<close>

definition exact_match_of :: "string \<Rightarrow> string \<Rightarrow> duplicate_match" where
  "exact_match_of a b =
     \<lparr> job1_id = a, job2_id = b, similarity_score = 1, match_type = ''exact'',
       reasons = [''identical_fingerprint''], confidence = 1 \<rparr>"

definition find_exact_duplicates :: "job_row list \<Rightarrow> duplicate_match list" where
  "find_exact_duplicates df =
     concat (map (\<lambda>fp.
        let job_ids = map row_id (filter (\<lambda>row. fingerprint row = fp) df)
        in if 1 < length job_ids
           then map (\<lambda>(i, j). exact_match_of (job_ids ! i) (job_ids ! j))
                    (index_pairs (length job_ids))
           else [])
       (sort (remdups (map fingerprint df))))"

text \<open>\<^verbatim>\<open>_find_fuzzy_duplicates\<close>.\<close>

definition find_fuzzy_duplicates :: "config \<Rightarrow> job_row list \<Rightarrow> duplicate_match list" where
  "find_fuzzy_duplicates cfg df =
     concat (map (\<lambda>(i, j).
        let similarity = calculate_fuzzy_similarity cfg (df ! i) (df ! j)
        in if fuzzy_threshold cfg \<le> similarity
           then [\<lparr> job1_id = row_id (df ! i), job2_id = row_id (df ! j),
                   similarity_score = similarity, match_type = ''fuzzy'',
                   reasons = get_similarity_reasons (df ! i) (df ! j),
                   confidence = min similarity (95 / 100) \<rparr>]
           else [])
       (index_pairs (length df)))"

text \<open>
  \<^verbatim>\<open>_find_semantic_duplicates\<close>. The TF-IDF vectoriser and the cosine similarity are
  scikit-learn's; \<open>cosine texts\<close> is the similarity matrix they give for the texts, or
  \<open>None\<close> when they raise (the \<^verbatim>\<open>except\<close> branch returns the empty list built so far).
  Every text holds at least the space of the format string, so \<^verbatim>\<open>any(texts)\<close> is false
  only for the empty frame.
\<close>

definition find_semantic_duplicates ::
  "config \<Rightarrow> (string list \<Rightarrow> (nat \<Rightarrow> nat \<Rightarrow> real) option) \<Rightarrow> job_row list
     \<Rightarrow> duplicate_match list" where
  "find_semantic_duplicates cfg cosine df =
     (if \<not> enable_advanced_matching cfg then []
      else let texts = map (\<lambda>row. opt_text (title_clean row) @ '' ''
                                  @ opt_text (description_clean row)) df
           in if \<not> list_ex (\<lambda>t. t \<noteq> []) texts then []
              else case cosine texts of
                     None \<Rightarrow> []
                   | Some similarities \<Rightarrow>
                       concat (map (\<lambda>(i, j).
                          if medium_similarity (thresholds cfg) \<le> similarities i j
                          then [\<lparr> job1_id = row_id (df ! i), job2_id = row_id (df ! j),
                                  similarity_score = similarities i j,
                                  match_type = ''semantic'',
                                  reasons = [''semantic_similarity''],
                                  confidence = similarities i j * (8 / 10) \<rparr>]
                          else [])
                         (index_pairs (length texts))))"

text \<open>\<^verbatim>\<open>Series.unique()\<close>: the values in order of first appearance.\<close>

function unique_first :: "'a list \<Rightarrow> 'a list" where
  "unique_first [] = []"
| "unique_first (x # xs) = x # unique_first (removeAll x xs)"
  by pat_completeness auto
termination
  by (relation "measure length") (auto simp: length_removeAll_less_eq less_Suc_eq_le)

text \<open>\<^verbatim>\<open>df[df['source'] == s]\<close>.\<close>

definition rows_of_source :: "job_row list \<Rightarrow> string option \<Rightarrow> job_row list" where
  "rows_of_source df s =
     (case s of None \<Rightarrow> [] | Some v \<Rightarrow> filter (\<lambda>row. row_source row = Some v) df)"

text \<open>\<^verbatim>\<open>_find_cross_source_duplicates\<close>.\<close>

definition cross_pairs ::
  "config \<Rightarrow> job_row list \<Rightarrow> string option \<Rightarrow> string option \<Rightarrow> duplicate_match list" where
  "cross_pairs cfg df source1 source2 =
     concat (map (\<lambda>job1.
       concat (map (\<lambda>job2.
         let similarity = calculate_cross_source_similarity job1 job2
         in if high_similarity (thresholds cfg) \<le> similarity
            then [\<lparr> job1_id = row_id job1, job2_id = row_id job2,
                    similarity_score = similarity, match_type = ''cross_source'',
                    reasons = [''cross_source_'' @ opt_text source1 @ ''_''
                               @ opt_text source2],
                    confidence = similarity * (9 / 10) \<rparr>]
            else [])
         (rows_of_source df source2)))
       (rows_of_source df source1))"

definition find_cross_source_duplicates :: "config \<Rightarrow> job_row list \<Rightarrow> duplicate_match list" where
  "find_cross_source_duplicates cfg df =
     (let sources = unique_first (map row_source df)
      in concat (map (\<lambda>(i, j). cross_pairs cfg df (sources ! i) (sources ! j))
                     (index_pairs (length sources))))"

subsection \<open>Match consolidator\<close>

text \<open>\<^verbatim>\<open>tuple(sorted([d.job1_id, d.job2_id]))\<close>.\<close>

definition pair_key :: "duplicate_match \<Rightarrow> string \<times> string" where
  "pair_key d = (min (job1_id d) (job2_id d), max (job1_id d) (job2_id d))"

text \<open>\<^verbatim>\<open>next(i for i, d in enumerate(all_duplicates) if key(d) == pair_key)\<close>: the first
  index with the key, \<^verbatim>\<open>StopIteration\<close> when there is none.\<close>

fun existing_index :: "string \<times> string \<Rightarrow> duplicate_match list \<Rightarrow> nat option" where
  "existing_index k [] = None"
| "existing_index k (d # ds) =
     (if pair_key d = k then Some 0 else map_option Suc (existing_index k ds))"

text \<open>The body of the inner loop on the state \<open>(all_duplicates, seen_pairs)\<close>.\<close>

definition consolidate_step ::
  "duplicate_match \<Rightarrow> duplicate_match list \<times> (string \<times> string) set
     \<Rightarrow> py_error + duplicate_match list \<times> (string \<times> string) set" where
  "consolidate_step duplicate st =
     (case st of (all_duplicates, seen_pairs) \<Rightarrow>
        if pair_key duplicate \<notin> seen_pairs
        then Inr (all_duplicates @ [duplicate], insert (pair_key duplicate) seen_pairs)
        else case existing_index (pair_key duplicate) all_duplicates of
               None \<Rightarrow> Inl StopIteration
             | Some existing_idx \<Rightarrow>
                 if confidence (all_duplicates ! existing_idx) < confidence duplicate
                 then Inr (all_duplicates[existing_idx := duplicate], seen_pairs)
                 else Inr (all_duplicates, seen_pairs))"

fun consolidate_loop ::
  "duplicate_match list \<Rightarrow> duplicate_match list \<times> (string \<times> string) set
     \<Rightarrow> py_error + duplicate_match list \<times> (string \<times> string) set" where
  "consolidate_loop [] st = Inr st"
| "consolidate_loop (duplicate # rest) st =
     (case consolidate_step duplicate st of
        Inl e \<Rightarrow> Inl e
      | Inr st' \<Rightarrow> consolidate_loop rest st')"

text \<open>
  \<open>results\<close> is the dictionary of the per-method lists in insertion order; the entry
  \<^verbatim>\<open>'summary'\<close> is skipped. \<open>method_matches\<close> is the sequence of matches that the two
  nested loops visit.
\<close>

definition method_matches :: "(string \<times> duplicate_match list) list \<Rightarrow> duplicate_match list" where
  "method_matches results =
     concat (map snd (filter (\<lambda>(method, duplicates). method \<noteq> ''summary'') results))"

text \<open>\<^verbatim>\<open>_consolidate_duplicates\<close>; the final sort is Python's stable sort on the
  confidence, descending.\<close>

definition consolidate_duplicates ::
  "(string \<times> duplicate_match list) list \<Rightarrow> py_error + duplicate_match list" where
  "consolidate_duplicates results =
     (case consolidate_loop (method_matches results) ([], {}) of
        Inl e \<Rightarrow> Inl e
      | Inr (all_duplicates, seen_pairs) \<Rightarrow>
          Inr (sort_key (\<lambda>x. - confidence x) all_duplicates))"

subsection \<open>Analysis run\<close>

text \<open>The part of \<^verbatim>\<open>_generate_summary\<close> that counts jobs and pairs; the per-source table
  and the two histograms are left out.\<close>

record summary =
  total_jobs :: nat
  duplicate_pairs :: nat
  unique_jobs_affected :: nat
  duplicate_rate :: real
  estimated_unique_jobs :: int

definition generate_summary :: "job_row list \<Rightarrow> duplicate_match list \<Rightarrow> summary" where
  "generate_summary df duplicates =
     (let total = length df;
          affected = card (set (map job1_id duplicates) \<union> set (map job2_id duplicates))
      in \<lparr> total_jobs = total,
           duplicate_pairs = length duplicates,
           unique_jobs_affected = affected,
           duplicate_rate = (if 0 < total then real affected / real total else 0),
           estimated_unique_jobs = int total - int affected + int (length duplicates) \<rparr>)"

record analysis_result =
  exact_duplicates :: "duplicate_match list"
  fuzzy_duplicates :: "duplicate_match list"
  semantic_duplicates :: "duplicate_match list"
  cross_source_duplicates :: "duplicate_match list"
  result_summary :: summary
  consolidated_duplicates :: "duplicate_match list"

text \<open>\<^verbatim>\<open>detect_duplicates\<close>.\<close>

definition detect_duplicates ::
  "(string \<Rightarrow> string) \<Rightarrow> (string list \<Rightarrow> (nat \<Rightarrow> nat \<Rightarrow> real) option) \<Rightarrow> config
     \<Rightarrow> raw_job list \<Rightarrow> py_error + analysis_result" where
  "detect_duplicates md5 cosine cfg jobs_data =
     (case preprocess_data md5 jobs_data of
        Inl e \<Rightarrow> Inl e
      | Inr df \<Rightarrow>
          let exact = find_exact_duplicates df;
              fuzzy = find_fuzzy_duplicates cfg df;
              semantic = find_semantic_duplicates cfg cosine df;
              cross = find_cross_source_duplicates cfg df;
              results = [(''exact_duplicates'', exact), (''fuzzy_duplicates'', fuzzy),
                         (''semantic_duplicates'', semantic),
                         (''cross_source_duplicates'', cross), (''summary'', [])]
          in case consolidate_duplicates results of
               Inl e \<Rightarrow> Inl e
             | Inr all_duplicates \<Rightarrow>
                 Inr \<lparr> exact_duplicates = exact, fuzzy_duplicates = fuzzy,
                       semantic_duplicates = semantic, cross_source_duplicates = cross,
                       result_summary = generate_summary df all_duplicates,
                       consolidated_duplicates = all_duplicates \<rparr>)"

subsection \<open>Duplicate resolver\<close>

text \<open>\<^verbatim>\<open>str(job.get('id', ''))\<close>.\<close>

definition job_id_str :: "raw_job \<Rightarrow> string" where
  "job_id_str job = (case job_id job of Absent \<Rightarrow> [] | Null \<Rightarrow> ''None'' | Text s \<Rightarrow> s)"

text \<open>\<^verbatim>\<open>next(job for job in jobs_data if str(job.get('id', '')) == ident)\<close>.\<close>

definition find_job :: "raw_job list \<Rightarrow> string \<Rightarrow> py_error + raw_job" where
  "find_job jobs_data ident =
     (case filter (\<lambda>job. job_id_str job = ident) jobs_data of
        [] \<Rightarrow> Inl StopIteration
      | job # _ \<Rightarrow> Inr job)"

text \<open>\<^verbatim>\<open>source_priority.get(job.get('source', ''), 999)\<close>.\<close>

definition source_priority :: "raw_job \<Rightarrow> nat" where
  "source_priority job =
     (case source job of
        Text s \<Rightarrow> (if s = ''merojob'' then 1 else if s = ''jobaxle'' then 2
                   else if s = ''froxjob'' then 3 else if s = ''hamrojobs'' then 4 else 999)
      | _ \<Rightarrow> 999)"

text \<open>The loop of \<^verbatim>\<open>remove_duplicates\<close> that fills \<open>jobs_to_remove\<close>.\<close>

fun removal_loop ::
  "config \<Rightarrow> raw_job list \<Rightarrow> string \<Rightarrow> duplicate_match list \<Rightarrow> string set
     \<Rightarrow> py_error + string set" where
  "removal_loop cfg jobs_data strategy [] jobs_to_remove = Inr jobs_to_remove"
| "removal_loop cfg jobs_data strategy (dup # rest) jobs_to_remove =
     (if min_confidence cfg \<le> confidence dup
      then if strategy = ''keep_first''
           then removal_loop cfg jobs_data strategy rest (insert (job2_id dup) jobs_to_remove)
           else if strategy = ''keep_best_source''
           then case find_job jobs_data (job1_id dup) of
                  Inl e \<Rightarrow> Inl e
                | Inr job1 \<Rightarrow>
                   (case find_job jobs_data (job2_id dup) of
                      Inl e \<Rightarrow> Inl e
                    | Inr job2 \<Rightarrow>
                        if source_priority job1 \<le> source_priority job2
                        then removal_loop cfg jobs_data strategy rest
                               (insert (job2_id dup) jobs_to_remove)
                        else removal_loop cfg jobs_data strategy rest
                               (insert (job1_id dup) jobs_to_remove))
           else removal_loop cfg jobs_data strategy rest jobs_to_remove
      else removal_loop cfg jobs_data strategy rest jobs_to_remove)"

definition remove_duplicates ::
  "config \<Rightarrow> raw_job list \<Rightarrow> duplicate_match list \<Rightarrow> string \<Rightarrow> py_error + raw_job list" where
  "remove_duplicates cfg jobs_data duplicates strategy =
     (case removal_loop cfg jobs_data strategy duplicates {} of
        Inl e \<Rightarrow> Inl e
      | Inr jobs_to_remove \<Rightarrow>
          Inr (filter (\<lambda>job. job_id_str job \<notin> jobs_to_remove) jobs_data))"

section \<open>Specification predicates and sample data\<close>

text \<open>
  The predicates in which the properties below are stated, and the concrete rows, jobs and
  matches on which they are evaluated.
\<close>

subsection \<open>Sample rows, jobs and matches\<close>

text \<open>Two rows with the same fingerprint and two jobs of the sample batch of \<^verbatim>\<open>main\<close>.\<close>

definition row_a :: job_row where
  "row_a = \<lparr> row_id = ''1'', row_source = Some ''merojob'',
             title_clean = Some ''developer'', title_normalized = Some ''developer'',
             company_normalized = Some ''techcorp'', location_clean = Some ''ktm'',
             description_clean = None, fingerprint = ''f0'' \<rparr>"

definition row_b :: job_row where
  "row_b = \<lparr> row_id = ''2'', row_source = Some ''jobaxle'',
             title_clean = Some ''developer'', title_normalized = Some ''developer'',
             company_normalized = Some ''techcorp'', location_clean = Some ''ktm'',
             description_clean = None, fingerprint = ''f0'' \<rparr>"

definition job_a :: raw_job where
  "job_a = \<lparr> job_id = Text ''1'', title = Text ''Software Engineer'',
             company = Text ''Tech Corp Pvt Ltd'', location = Text ''Kathmandu'',
             description = Absent, salary = Absent, source = Text ''merojob'' \<rparr>"

definition job_b :: raw_job where
  "job_b = \<lparr> job_id = Text ''2'', title = Text ''Software Engineer'',
             company = Text ''Tech Corp'', location = Text ''Kathmandu'',
             description = Absent, salary = Absent, source = Text ''jobaxle'' \<rparr>"

definition dup_ab :: duplicate_match where
  "dup_ab = \<lparr> job1_id = ''1'', job2_id = ''2'', similarity_score = 1,
              match_type = ''exact'', reasons = [''identical_fingerprint''],
              confidence = 1 \<rparr>"

subsection \<open>The scorer as specified\<close>

text \<open>
  The scorer as the specification words it, on two job records: the weighted mean of the
  per-field ratios over title, company, location, description and salary, a field entering
  numerator and denominator only when both records have it. The text fields are compared
  in their normalised forms, the salary as it is.
\<close>

definition field_text :: "(string \<Rightarrow> string) \<Rightarrow> cell \<Rightarrow> string option" where
  "field_text normalise c = (case c of Text s \<Rightarrow> Some (normalise s) | _ \<Rightarrow> None)"

definition spec_record_score :: "config \<Rightarrow> raw_job \<Rightarrow> raw_job \<Rightarrow> real" where
  "spec_record_score cfg job1 job2 =
     (let w = weights cfg;
          company_form = (\<lambda>s. normalize_company_name (clean_text s));
          fields =
            [(field_text clean_text (title job1), field_text clean_text (title job2),
              weight_title w),
             (field_text company_form (company job1), field_text company_form (company job2),
              weight_company w),
             (field_text clean_text (location job1), field_text clean_text (location job2),
              weight_location w),
             (field_text clean_text (description job1),
              field_text clean_text (description job2), weight_description w),
             (field_text (\<lambda>s. s) (salary job1), field_text (\<lambda>s. s) (salary job2),
              weight_salary w)];
          present = filter (\<lambda>(x, y, wt). x \<noteq> None \<and> y \<noteq> None) fields
      in if present = [] then 0
         else sum_list (map (\<lambda>(x, y, wt). wt * ratio (opt_text x) (opt_text y)) present)
              / sum_list (map (\<lambda>(x, y, wt). wt) present))"

text \<open>
  The score of two jobs of a batch as the code computes it: title and company are always
  compared, location and description when some job of the batch has the key; a job
  without the key or without a string in it is compared as the empty string.
\<close>

definition batch_score :: "raw_job list \<Rightarrow> raw_job \<Rightarrow> raw_job \<Rightarrow> real" where
  "batch_score jobs job1 job2 =
     (let cleaned = (\<lambda>field job. clean_text (cell_text (field job)));
          fields =
            [(True, cleaned title job1, cleaned title job2, 4 / 10),
             (True, normalize_company_name (cleaned company job1),
              normalize_company_name (cleaned company job2), 3 / 10),
             (has_column location jobs, cleaned location job1, cleaned location job2,
              15 / 100),
             (has_column description jobs, cleaned description job1,
              cleaned description job2, 1 / 10)];
          compared = filter (\<lambda>(in_batch, x, y, wt). in_batch) fields
      in sum_list (map (\<lambda>(in_batch, x, y, wt). wt * ratio x y) compared)
         / sum_list (map (\<lambda>(in_batch, x, y, wt). wt) compared))"

text \<open>A job with every field, a job with title and company only, and a job that differs
  from the first in the salary; then their rows in the frames of the batches
  \<open>[job_full, job_short]\<close> and \<open>[job_full, job_paid]\<close>, with the identity as digest.\<close>

definition job_full :: raw_job where
  "job_full = \<lparr> job_id = Text ''1'', title = Text ''a'', company = Text ''b'',
                location = Text ''c'', description = Text ''d'', salary = Text ''1'',
                source = Absent \<rparr>"

definition job_short :: raw_job where
  "job_short = \<lparr> job_id = Text ''2'', title = Text ''a'', company = Text ''b'',
                 location = Absent, description = Absent, salary = Absent,
                 source = Absent \<rparr>"

definition job_paid :: raw_job where
  "job_paid = \<lparr> job_id = Text ''3'', title = Text ''a'', company = Text ''b'',
                location = Text ''c'', description = Text ''d'', salary = Text ''2'',
                source = Absent \<rparr>"

definition row_full :: job_row where
  "row_full = \<lparr> row_id = ''1'', row_source = None,
                title_clean = Some ''a'', title_normalized = Some ''a'',
                company_normalized = Some ''b'', location_clean = Some ''c'',
                description_clean = Some ''d'', fingerprint = ''a|b|c'' \<rparr>"

definition row_short :: job_row where
  "row_short = \<lparr> row_id = ''2'', row_source = None,
                 title_clean = Some ''a'', title_normalized = Some ''a'',
                 company_normalized = Some ''b'', location_clean = Some [],
                 description_clean = Some [], fingerprint = ''a|b|'' \<rparr>"

definition row_paid :: job_row where
  "row_paid = \<lparr> row_id = ''3'', row_source = None,
                title_clean = Some ''a'', title_normalized = Some ''a'',
                company_normalized = Some ''b'', location_clean = Some ''c'',
                description_clean = Some ''d'', fingerprint = ''a|b|c'' \<rparr>"

text \<open>The four compared fields of a row are all the empty string.\<close>

definition compared_fields_empty :: "job_row \<Rightarrow> bool" where
  "compared_fields_empty row =
     (title_clean row = Some [] \<and> company_normalized row = Some []
      \<and> location_clean row = Some [] \<and> description_clean row = Some [])"

text \<open>Two rows whose compared fields are empty.\<close>

definition row_e1 :: job_row where
  "row_e1 = \<lparr> row_id = ''0'', row_source = None,
              title_clean = Some [], title_normalized = Some [],
              company_normalized = Some [], location_clean = Some [],
              description_clean = Some [], fingerprint = ''f2'' \<rparr>"

definition row_e2 :: job_row where
  "row_e2 = \<lparr> row_id = ''1'', row_source = None,
              title_clean = Some [], title_normalized = Some [],
              company_normalized = Some [], location_clean = Some [],
              description_clean = Some [], fingerprint = ''f3'' \<rparr>"

text \<open>The ratio of one field is the same in both argument orders, or the field is not in
  both rows.\<close>

definition ratio_symmetric_on :: "string option \<Rightarrow> string option \<Rightarrow> bool" where
  "ratio_symmetric_on f1 f2 =
     (case (f1, f2) of (Some x, Some y) \<Rightarrow> ratio x y = ratio y x | _ \<Rightarrow> True)"

text \<open>Rows that differ in the title only.\<close>

definition row_tide :: job_row where
  "row_tide = \<lparr> row_id = ''1'', row_source = Some ''merojob'',
                title_clean = Some ''tide'', title_normalized = Some ''tide'',
                company_normalized = Some ''b'', location_clean = None,
                description_clean = None, fingerprint = ''f4'' \<rparr>"

definition row_diet :: job_row where
  "row_diet = \<lparr> row_id = ''2'', row_source = Some ''jobaxle'',
                title_clean = Some ''diet'', title_normalized = Some ''diet'',
                company_normalized = Some ''b'', location_clean = None,
                description_clean = None, fingerprint = ''f5'' \<rparr>"

definition row_tied :: job_row where
  "row_tied = \<lparr> row_id = ''3'', row_source = Some ''jobaxle'',
                title_clean = Some ''tied'', title_normalized = Some ''tied'',
                company_normalized = Some ''b'', location_clean = None,
                description_clean = None, fingerprint = ''f6'' \<rparr>"

text \<open>A similarity matrix with every entry 0.9, and the matches that the fuzzy, the
  semantic and the cross-source strategy give on \<open>row_a\<close> and \<open>row_b\<close>.\<close>

definition cosine_09 :: "string list \<Rightarrow> (nat \<Rightarrow> nat \<Rightarrow> real) option" where
  "cosine_09 texts = Some (\<lambda>i j. 9 / 10)"

definition fuzzy_ab :: duplicate_match where
  "fuzzy_ab = \<lparr> job1_id = ''1'', job2_id = ''2'', similarity_score = 1,
                match_type = ''fuzzy'',
                reasons = [''very_similar_titles'', ''same_company'', ''same_location''],
                confidence = 95 / 100 \<rparr>"

definition semantic_ab :: duplicate_match where
  "semantic_ab = \<lparr> job1_id = ''1'', job2_id = ''2'', similarity_score = 9 / 10,
                   match_type = ''semantic'', reasons = [''semantic_similarity''],
                   confidence = 72 / 100 \<rparr>"

definition cross_ab :: duplicate_match where
  "cross_ab = \<lparr> job1_id = ''1'', job2_id = ''2'', similarity_score = 1,
                match_type = ''cross_source'',
                reasons = [''cross_source_merojob_jobaxle''],
                confidence = 9 / 10 \<rparr>"

subsection \<open>Consolidation\<close>

text \<open>
  \<open>same_pair e d\<close>: the two matches are about the same unordered pair of ids.
  \<open>first_best ms d\<close>: among the matches of \<open>ms\<close> for the unordered pair of \<open>d\<close>, \<open>d\<close>
  has the highest confidence, and it is the first one in \<open>ms\<close> that has it.
\<close>

definition same_pair :: "duplicate_match \<Rightarrow> duplicate_match \<Rightarrow> bool" where
  "same_pair e d \<longleftrightarrow> {job1_id e, job2_id e} = {job1_id d, job2_id d}"

definition first_best :: "duplicate_match list \<Rightarrow> duplicate_match \<Rightarrow> bool" where
  "first_best ms d \<longleftrightarrow>
     (\<exists>pre post. ms = pre @ d # post
        \<and> (\<forall>e \<in> set pre. same_pair e d \<longrightarrow> confidence e < confidence d)
        \<and> (\<forall>e \<in> set post. same_pair e d \<longrightarrow> confidence e \<le> confidence d))"

text \<open>The loop invariant: \<open>processed\<close> is the sequence of matches visited so far.\<close>

definition consolidated ::
  "duplicate_match list \<Rightarrow> duplicate_match list \<times> (string \<times> string) set \<Rightarrow> bool" where
  "consolidated processed st \<longleftrightarrow>
     (case st of (all_duplicates, seen_pairs) \<Rightarrow>
        seen_pairs = pair_key ` set all_duplicates
        \<and> distinct (map pair_key all_duplicates)
        \<and> pair_key ` set all_duplicates = pair_key ` set processed
        \<and> (\<forall>d \<in> set all_duplicates. first_best processed d))"

text \<open>The same pair reported twice, with the ids in both orders.\<close>

definition fuzzy_12 :: duplicate_match where
  "fuzzy_12 = \<lparr> job1_id = ''1'', job2_id = ''2'', similarity_score = 85 / 100,
                match_type = ''fuzzy'', reasons = [''similar_titles''],
                confidence = 85 / 100 \<rparr>"

definition cross_21 :: duplicate_match where
  "cross_21 = \<lparr> job1_id = ''2'', job2_id = ''1'', similarity_score = 1,
                match_type = ''cross_source'',
                reasons = [''cross_source_jobaxle_merojob''],
                confidence = 9 / 10 \<rparr>"

subsection \<open>Whole-word occurrences and word runs\<close>

text \<open>\<^verbatim>\<open>re.search(rf'\b{pat}\b', s) is not None\<close>, scanning with the character before the
  current position as in \<open>sub_word\<close>.\<close>

fun occurs :: "string \<Rightarrow> char option \<Rightarrow> string \<Rightarrow> bool" where
  "occurs pat prev [] = False"
| "occurs pat prev (c # cs) = (match_here pat prev (c # cs) \<or> occurs pat (Some c) cs)"

text \<open>The maximal runs of word characters of a string, in order; \<open>cur\<close> is the run that
  is being read.\<close>

definition flush :: "string \<Rightarrow> string list" where
  "flush cur = (if cur = [] then [] else [cur])"

fun runs :: "string \<Rightarrow> string \<Rightarrow> string list" where
  "runs cur [] = flush cur"
| "runs cur (c # cs) =
     (if is_word c then runs (cur @ [c]) cs else flush cur @ runs [] cs)"

definition wordruns :: "string \<Rightarrow> string list" where
  "wordruns s = runs [] s"

text \<open>A pattern that begins and ends with a word character; a pattern that is one word.\<close>

definition wordy :: "string \<Rightarrow> bool" where
  "wordy p \<longleftrightarrow> p \<noteq> [] \<and> is_word (hd p) \<and> is_word (last p)"

definition one_word :: "string \<Rightarrow> bool" where
  "one_word p \<longleftrightarrow> p \<noteq> [] \<and> list_all is_word p"

text \<open>The string is empty or begins with a non-word character; the character before the
  position that follows \<open>u\<close>.\<close>

definition starts_nonword :: "string \<Rightarrow> bool" where
  "starts_nonword s \<longleftrightarrow> (case s of [] \<Rightarrow> True | c # _ \<Rightarrow> \<not> is_word c)"

definition context_after :: "char option \<Rightarrow> string \<Rightarrow> char option" where
  "context_after prev u = (if u = [] then prev else Some (last u))"

text \<open>Deleting a pattern creates no word run, deleting a one-word pattern leaves no run
  equal to it, and the runs that are not words of the pattern stay, in their order.\<close>

definition sub_word_ok :: "string \<Rightarrow> string \<Rightarrow> string \<Rightarrow> bool" where
  "sub_word_ok p s out \<longleftrightarrow>
     set (wordruns out) \<subseteq> set (wordruns s)
     \<and> (one_word p \<longrightarrow> p \<notin> set (wordruns out))
     \<and> filter (\<lambda>x. x \<notin> set (wordruns p)) (wordruns out)
         = filter (\<lambda>x. x \<notin> set (wordruns p)) (wordruns s)"

text \<open>The words of the patterns of a list.\<close>

definition suffix_words :: "string list \<Rightarrow> string set" where
  "suffix_words ps = (\<Union>p \<in> set ps. set (wordruns p))"

text \<open>The last word of each suffix is a one-word suffix of the list.\<close>

definition suffix_parts :: "(string \<times> string) list" where
  "suffix_parts = [(''pvt '', ''ltd''), (''private '', ''limited''), ([], ''ltd''),
                   ([], ''inc''), ([], ''corp''), ([], ''corporation''), ([], ''company''),
                   ([], ''co''), ([], ''limited''), ([], ''llc''), ([], ''plc'')]"

text \<open>A non-empty string without whitespace.\<close>

definition token :: "string \<Rightarrow> bool" where
  "token w \<longleftrightarrow> w \<noteq> [] \<and> list_all (\<lambda>c. \<not> is_space c) w"

section \<open>Empty input\<close>

text \<open>
  C5. On the empty job list \<^verbatim>\<open>detect_duplicates\<close> returns no result: the frame has no
  columns, and \<^verbatim>\<open>_preprocess_data\<close> raises \<^verbatim>\<open>KeyError('title_clean')\<close>.
\<close>

theorem detect_duplicates_empty_raises:
  "detect_duplicates md5 cosine cfg [] = Inl (KeyError ''title_clean'')"
  by (simp add: detect_duplicates_def preprocess_data_def has_column_def)

section \<open>Resolver policies\<close>

lemma removal_loop_other:
  "strategy \<noteq> ''keep_first'' \<Longrightarrow> strategy \<noteq> ''keep_best_source''
   \<Longrightarrow> removal_loop cfg jobs_data strategy duplicates acc = Inr acc"
  by (induction duplicates arbitrary: acc) simp_all

text \<open>
  C8, as the code has it. With a policy name other than \<open>keep_first\<close>,
  \<open>keep_best_source\<close> and \<open>keep_most_complete\<close>, \<^verbatim>\<open>remove_duplicates\<close> raises nothing
  and returns the job list as it was given.
\<close>

theorem remove_duplicates_unknown_policy:
  assumes "strategy \<noteq> ''keep_first''" and "strategy \<noteq> ''keep_best_source''"
    and "strategy \<noteq> ''keep_most_complete''"
  shows "remove_duplicates cfg jobs_data duplicates strategy = Inr jobs_data"
  using assms by (simp add: remove_duplicates_def removal_loop_other)

theorem remove_duplicates_unknown_policy_witness:
  "remove_duplicates default_config [job_a, job_b] [dup_ab] ''keep_newest''
     = Inr [job_a, job_b]"
  by (rule remove_duplicates_unknown_policy) simp_all

text \<open>The claim as the specification states it fails: an unrecognised policy name gives a
  job list, not an error.\<close>

theorem remove_duplicates_bogus_policy_returns:
  "remove_duplicates default_config [job_a, job_b] [dup_ab] ''bogus'' = Inr [job_a, job_b]"
  by (simp add: remove_duplicates_def default_config_def dup_ab_def)

section \<open>Range of the ratio\<close>

lemma block_sizes_append: "block_sizes (xs @ ys) = block_sizes xs + block_sizes ys"
  by (simp add: block_sizes_def)

lemma block_sizes_insort: "block_sizes (insort x xs) = block_sizes [x] + block_sizes xs"
  by (induction xs) (auto simp: block_sizes_def)

lemma block_sizes_sort: "block_sizes (sort xs) = block_sizes xs"
proof (induction xs)
  case Nil
  show ?case by simp
next
  case (Cons x xs)
  have "block_sizes (sort (x # xs)) = block_sizes [x] + block_sizes (sort xs)"
    by (simp add: block_sizes_insort)
  then show ?case using Cons by (simp add: block_sizes_def)
qed

lemma block_sizes_collapse:
  "block_sizes (collapse_adjacent xs (i1, j1, k1) acc) = block_sizes acc + k1 + block_sizes xs"
  by (induction xs "(i1, j1, k1)" acc arbitrary: i1 j1 k1 rule: collapse_adjacent.induct)
     (auto simp: block_sizes_def)

lemma loop_step:
  assumes "find_longest_match a b alo ahi blo bhi = (i, j, k)" and "k \<noteq> 0"
  shows "matching_blocks_loop a b ((alo, ahi, blo, bhi) # queue) blocks =
         matching_blocks_loop a b
           ((if i + k < ahi \<and> j + k < bhi then [(i + k, ahi, j + k, bhi)] else [])
            @ (if alo < i \<and> blo < j then [(alo, i, blo, j)] else []) @ queue)
           (blocks @ [(i, j, k)])"
  using assms by (subst matching_blocks_loop.simps) simp

lemma loop_skip:
  assumes "find_longest_match a b alo ahi blo bhi = (i, j, 0)"
  shows "matching_blocks_loop a b ((alo, ahi, blo, bhi) # queue) blocks =
         matching_blocks_loop a b queue blocks"
  using assms by (subst matching_blocks_loop.simps) simp

lemma loop_sizes_a:
  "block_sizes (matching_blocks_loop a b queue blocks)
     \<le> block_sizes blocks + sum_list (map (\<lambda>(alo, ahi, blo, bhi). ahi - alo) queue)"
proof (induction a b queue blocks rule: matching_blocks_loop.induct)
  case (1 a b blocks)
  show ?case by (simp add: matching_blocks_loop.simps)
next
  case (2 a b alo ahi blo bhi queue blocks)
  obtain i j k where f: "find_longest_match a b alo ahi blo bhi = (i, j, k)"
    by (cases "find_longest_match a b alo ahi blo bhi") auto
  show ?case
  proof (cases "k = 0")
    case True
    have "block_sizes (matching_blocks_loop a b queue blocks)
            \<le> block_sizes blocks + sum_list (map (\<lambda>(alo, ahi, blo, bhi). ahi - alo) queue)"
      using "2.IH"(1) [OF f [symmetric] refl True] .
    then show ?thesis using loop_skip [of a b alo ahi blo bhi i j] f True by (simp add: split_def)
  next
    case False
    define q where "q = (if i + k < ahi \<and> j + k < bhi then [(i + k, ahi, j + k, bhi)] else [])
            @ (if alo < i \<and> blo < j then [(alo, i, blo, j)] else []) @ queue"
    from flm_bounds [OF f] False have b: "alo \<le> i" "i + k \<le> ahi" by simp_all
    have ih: "block_sizes (matching_blocks_loop a b q (blocks @ [(i, j, k)]))
            \<le> block_sizes (blocks @ [(i, j, k)])
              + sum_list (map (\<lambda>(alo, ahi, blo, bhi). ahi - alo) q)"
      unfolding q_def using "2.IH"(2) [OF f [symmetric] refl False] .
    have "k + sum_list (map (\<lambda>(alo, ahi, blo, bhi). ahi - alo) q)
            \<le> (ahi - alo) + sum_list (map (\<lambda>(alo, ahi, blo, bhi). ahi - alo) queue)"
      using b by (auto simp: q_def)
    moreover have "block_sizes (blocks @ [(i, j, k)]) = block_sizes blocks + k"
      by (simp add: block_sizes_def)
    moreover have step: "matching_blocks_loop a b ((alo, ahi, blo, bhi) # queue) blocks
        = matching_blocks_loop a b q (blocks @ [(i, j, k)])"
      unfolding q_def by (rule loop_step [OF f False])
    moreover have "sum_list (map (\<lambda>(alo, ahi, blo, bhi). ahi - alo) ((alo, ahi, blo, bhi) # queue))
        = (ahi - alo) + sum_list (map (\<lambda>(alo, ahi, blo, bhi). ahi - alo) queue)"
      by simp
    ultimately show ?thesis using ih by (simp only:)
  qed
qed

lemma loop_sizes_b:
  "block_sizes (matching_blocks_loop a b queue blocks)
     \<le> block_sizes blocks + sum_list (map (\<lambda>(alo, ahi, blo, bhi). bhi - blo) queue)"
proof (induction a b queue blocks rule: matching_blocks_loop.induct)
  case (1 a b blocks)
  show ?case by (simp add: matching_blocks_loop.simps)
next
  case (2 a b alo ahi blo bhi queue blocks)
  obtain i j k where f: "find_longest_match a b alo ahi blo bhi = (i, j, k)"
    by (cases "find_longest_match a b alo ahi blo bhi") auto
  show ?case
  proof (cases "k = 0")
    case True
    have "block_sizes (matching_blocks_loop a b queue blocks)
            \<le> block_sizes blocks + sum_list (map (\<lambda>(alo, ahi, blo, bhi). bhi - blo) queue)"
      using "2.IH"(1) [OF f [symmetric] refl True] .
    then show ?thesis using loop_skip [of a b alo ahi blo bhi i j] f True by (simp add: split_def)
  next
    case False
    define q where "q = (if i + k < ahi \<and> j + k < bhi then [(i + k, ahi, j + k, bhi)] else [])
            @ (if alo < i \<and> blo < j then [(alo, i, blo, j)] else []) @ queue"
    from flm_bounds [OF f] False have b: "blo \<le> j" "j + k \<le> bhi" by simp_all
    have ih: "block_sizes (matching_blocks_loop a b q (blocks @ [(i, j, k)]))
            \<le> block_sizes (blocks @ [(i, j, k)])
              + sum_list (map (\<lambda>(alo, ahi, blo, bhi). bhi - blo) q)"
      unfolding q_def using "2.IH"(2) [OF f [symmetric] refl False] .
    have "k + sum_list (map (\<lambda>(alo, ahi, blo, bhi). bhi - blo) q)
            \<le> (bhi - blo) + sum_list (map (\<lambda>(alo, ahi, blo, bhi). bhi - blo) queue)"
      using b by (auto simp: q_def)
    moreover have "block_sizes (blocks @ [(i, j, k)]) = block_sizes blocks + k"
      by (simp add: block_sizes_def)
    moreover have step: "matching_blocks_loop a b ((alo, ahi, blo, bhi) # queue) blocks
        = matching_blocks_loop a b q (blocks @ [(i, j, k)])"
      unfolding q_def by (rule loop_step [OF f False])
    moreover have "sum_list (map (\<lambda>(alo, ahi, blo, bhi). bhi - blo) ((alo, ahi, blo, bhi) # queue))
        = (bhi - blo) + sum_list (map (\<lambda>(alo, ahi, blo, bhi). bhi - blo) queue)"
      by simp
    ultimately show ?thesis using ih by (simp only:)
  qed
qed

lemma matches_le:
  "block_sizes (get_matching_blocks a b) \<le> length a"
  "block_sizes (get_matching_blocks a b) \<le> length b"
  using loop_sizes_a [of a b "[(0, length a, 0, length b)]" "[]"]
        loop_sizes_b [of a b "[(0, length a, 0, length b)]" "[]"]
  by (simp_all add: get_matching_blocks_def block_sizes_append block_sizes_collapse
        block_sizes_sort) (simp_all add: block_sizes_def)

lemma ratio_range: "0 \<le> ratio a b \<and> ratio a b \<le> 1"
proof (cases "length a + length b = 0")
  case True
  then show ?thesis by (simp add: ratio_def)
next
  case False
  define m where "m = block_sizes (get_matching_blocks a b)"
  define n where "n = length a + length b"
  have r: "ratio a b = 2 * real m / real n"
    using False by (simp add: ratio_def Let_def m_def n_def)
  have "2 * m \<le> n" using matches_le [of a b] by (simp add: m_def n_def)
  then have le: "2 * real m \<le> real n" by linarith
  have "n \<noteq> 0" using False by (simp add: n_def)
  then have pos: "0 < real n" by simp
  from le pos have "2 * real m / real n \<le> 1" by simp
  moreover have "0 \<le> 2 * real m / real n" by simp
  ultimately show ?thesis unfolding r by simp
qed

lemma ratio_empty: "ratio [] [] = 1"
  by (simp add: ratio_def)

lemma ratio_tide_diet: "ratio ''tide'' ''diet'' = 1 / 4"
  by code_simp

lemma ratio_diet_tide: "ratio ''diet'' ''tide'' = 1 / 2"
  by code_simp

section \<open>Pairwise scorer\<close>

lemma index_pairs_mem: "(i, j) \<in> set (index_pairs n) \<longleftrightarrow> i < j \<and> j < n"
  by (force simp: index_pairs_def)

lemma add_field_cases:
  "add_field f1 f2 w t =
     (if f1 \<noteq> None \<and> f2 \<noteq> None
      then (fst t + ratio (opt_text f1) (opt_text f2) * w, snd t + w) else t)"
  by (auto simp: add_field_def opt_text_def split: option.splits)

lemma ratio_same_1: "ratio ''a'' ''a'' = 1" "ratio ''b'' ''b'' = 1" "ratio ''c'' ''c'' = 1"
  "ratio ''d'' ''d'' = 1"
  by code_simp+

lemma those_length: "those xs = Some ys \<Longrightarrow> length ys = length xs"
  by (induction xs arbitrary: ys) (auto split: option.splits)

lemma id_column_length: "id_column jobs = Some ids \<Longrightarrow> length ids = length jobs"
  by (auto simp: id_column_def dest: those_length split: if_splits)

lemma preprocess_data_rows:
  assumes "preprocess_data md5 jobs = Inr df" and "i < length jobs"
  shows "\<exists>ident. df ! i = preprocess_row md5 (has_column location jobs)
                             (has_column description jobs) ident (jobs ! i)"
proof -
  from assms(1) obtain ids where
    ids: "id_column jobs = Some ids" and
    df: "df = map (\<lambda>(ident, job). preprocess_row md5 (has_column location jobs)
                     (has_column description jobs) ident job) (zip ids jobs)"
    by (auto simp: preprocess_data_def split: if_splits option.splits)
  have "length ids = length jobs" using ids by (rule id_column_length)
  then show ?thesis using assms(2) df by auto
qed

lemma fuzzy_similarity_preprocessed:
  "calculate_fuzzy_similarity default_config
     (preprocess_row md5 has_location has_description ident1 job1)
     (preprocess_row md5 has_location has_description ident2 job2)
   = (let cleaned = (\<lambda>field job. clean_text (cell_text (field job)));
          fields =
            [(True, cleaned title job1, cleaned title job2, 4 / 10),
             (True, normalize_company_name (cleaned company job1),
              normalize_company_name (cleaned company job2), 3 / 10),
             (has_location, cleaned location job1, cleaned location job2, 15 / 100),
             (has_description, cleaned description job1, cleaned description job2, 1 / 10)];
          compared = filter (\<lambda>(in_batch, x, y, wt). in_batch) fields
      in sum_list (map (\<lambda>(in_batch, x, y, wt). wt * ratio x y) compared)
         / sum_list (map (\<lambda>(in_batch, x, y, wt). wt) compared))"
  by (cases has_location; cases has_description)
     (simp_all add: calculate_fuzzy_similarity_def preprocess_row_def add_field_def
        default_config_def Let_def algebra_simps)

text \<open>
  C4, as the code has it. For two jobs of a preprocessed batch the fuzzy score with the
  default weights is the weighted mean of the ratios of title (0.40), company (0.30),
  location (0.15) and description (0.10). Location and description leave numerator and
  denominator only when no job of the batch has the key; a job that lacks a field which
  another job of the batch has is compared as the empty string, at the full weight of the
  field. Salary is not compared.
\<close>

theorem fuzzy_similarity_of_batch:
  assumes "preprocess_data md5 jobs = Inr df" and "i < length jobs" and "j < length jobs"
  shows "calculate_fuzzy_similarity default_config (df ! i) (df ! j)
           = batch_score jobs (jobs ! i) (jobs ! j)"
proof -
  from preprocess_data_rows [OF assms(1,2)] obtain ident1 where
    i: "df ! i = preprocess_row md5 (has_column location jobs)
                   (has_column description jobs) ident1 (jobs ! i)" by blast
  from preprocess_data_rows [OF assms(1,3)] obtain ident2 where
    j: "df ! j = preprocess_row md5 (has_column location jobs)
                   (has_column description jobs) ident2 (jobs ! j)" by blast
  show ?thesis unfolding i j batch_score_def by (rule fuzzy_similarity_preprocessed)
qed

lemma ratio_against_empty: "ratio ''c'' [] = 0" "ratio ''d'' [] = 0" "ratio ''1'' ''2'' = 0"
  by code_simp+

lemma cleaned_samples:
  "clean_text ''a'' = ''a''" "clean_text ''c'' = ''c''" "clean_text ''d'' = ''d''"
  "normalize_company_name (clean_text ''b'') = ''b''"
  by code_simp+

lemma preprocess_full_short:
  "preprocess_data (\<lambda>s. s) [job_full, job_short] = Inr [row_full, row_short]"
  by code_simp

lemma preprocess_full_paid:
  "preprocess_data (\<lambda>s. s) [job_full, job_paid] = Inr [row_full, row_paid]"
  by code_simp

lemma score_full_short: "calculate_fuzzy_similarity default_config row_full row_short = 14 / 19"
  by (simp add: calculate_fuzzy_similarity_def add_field_def default_config_def
      row_full_def row_short_def ratio_same_1 ratio_against_empty)

theorem fuzzy_similarity_of_batch_witness:
  "preprocess_data (\<lambda>s. s) [job_full, job_short] = Inr [row_full, row_short]
   \<and> batch_score [job_full, job_short] job_full job_short
       = calculate_fuzzy_similarity default_config row_full row_short
   \<and> batch_score [job_full, job_short] job_full job_short = 14 / 19"
proof -
  have "calculate_fuzzy_similarity default_config ([row_full, row_short] ! 0)
          ([row_full, row_short] ! 1)
        = batch_score [job_full, job_short] ([job_full, job_short] ! 0)
            ([job_full, job_short] ! 1)"
    by (rule fuzzy_similarity_of_batch [OF preprocess_full_short]) simp_all
  then have "batch_score [job_full, job_short] job_full job_short
               = calculate_fuzzy_similarity default_config row_full row_short"
    by simp
  with preprocess_full_short score_full_short show ?thesis by simp
qed

text \<open>
  The claim as the specification states it fails twice. A job without location and
  description, in a batch where another job has them, is not scored on title and company
  alone: the two missing fields count with ratio 0, and the score is 14/19 where the mean
  over the fields that both records have is 1. And two jobs that agree on the four text
  fields score 1.0 whatever their salaries, where the five-field mean is 0.95.
\<close>

theorem fuzzy_similarity_not_as_specified:
  "preprocess_data (\<lambda>s. s) [job_full, job_short] = Inr [row_full, row_short]
   \<and> calculate_fuzzy_similarity default_config row_full row_short = 14 / 19
   \<and> spec_record_score default_config job_full job_short = 1
   \<and> preprocess_data (\<lambda>s. s) [job_full, job_paid] = Inr [row_full, row_paid]
   \<and> calculate_fuzzy_similarity default_config row_full row_paid = 1
   \<and> spec_record_score default_config job_full job_paid = 95 / 100"
proof -
  have a: "spec_record_score default_config job_full job_short = 1"
    by (simp add: spec_record_score_def field_text_def default_config_def job_full_def
        job_short_def opt_text_def ratio_same_1 cleaned_samples)
  have b: "calculate_fuzzy_similarity default_config row_full row_paid = 1"
    by (simp add: calculate_fuzzy_similarity_def add_field_def default_config_def
        row_full_def row_paid_def ratio_same_1)
  have c: "spec_record_score default_config job_full job_paid = 95 / 100"
    by (simp add: spec_record_score_def field_text_def default_config_def job_full_def
        job_paid_def opt_text_def ratio_same_1 ratio_against_empty cleaned_samples)
  from preprocess_full_short score_full_short a preprocess_full_paid b c
  show ?thesis by simp
qed

section \<open>Rows with empty fields\<close>

lemma empty_fields_similarity:
  assumes "compared_fields_empty job1" and "compared_fields_empty job2"
  shows "calculate_fuzzy_similarity default_config job1 job2 = 1"
  using assms
  by (simp add: compared_fields_empty_def calculate_fuzzy_similarity_def add_field_def
      default_config_def ratio_empty Let_def)

lemma empty_fields_reasons:
  assumes "compared_fields_empty job1" and "compared_fields_empty job2"
  shows "get_similarity_reasons job1 job2
           = [''very_similar_titles'', ''same_company'', ''same_location'']"
  using assms
  by (simp add: compared_fields_empty_def get_similarity_reasons_def ratio_empty)

lemma fuzzy_emits:
  assumes "i < j" and "j < length df"
    and "fuzzy_threshold cfg \<le> calculate_fuzzy_similarity cfg (df ! i) (df ! j)"
  shows "\<lparr> job1_id = row_id (df ! i), job2_id = row_id (df ! j),
           similarity_score = calculate_fuzzy_similarity cfg (df ! i) (df ! j),
           match_type = ''fuzzy'',
           reasons = get_similarity_reasons (df ! i) (df ! j),
           confidence = min (calculate_fuzzy_similarity cfg (df ! i) (df ! j)) (95 / 100) \<rparr>
         \<in> set (find_fuzzy_duplicates cfg df)"
proof -
  have "(i, j) \<in> set (index_pairs (length df))"
    using assms(1,2) by (simp add: index_pairs_mem)
  then show ?thesis
    using assms(3) by (force simp: find_fuzzy_duplicates_def Let_def)
qed

text \<open>
  C9. Two rows whose title, company, location and description are all the empty string
  score 1.0 with the default weights, and the fuzzy strategy with the default threshold 0.8
  emits them as a pair with confidence 0.95.
\<close>

theorem empty_fields_fuzzy_duplicate:
  assumes "i < j" and "j < length df"
    and "compared_fields_empty (df ! i)" and "compared_fields_empty (df ! j)"
  shows "calculate_fuzzy_similarity default_config (df ! i) (df ! j) = 1
         \<and> \<lparr> job1_id = row_id (df ! i), job2_id = row_id (df ! j), similarity_score = 1,
               match_type = ''fuzzy'',
               reasons = [''very_similar_titles'', ''same_company'', ''same_location''],
               confidence = 95 / 100 \<rparr>
             \<in> set (find_fuzzy_duplicates default_config df)"
proof -
  have s: "calculate_fuzzy_similarity default_config (df ! i) (df ! j) = 1"
    using assms(3,4) by (rule empty_fields_similarity)
  have "fuzzy_threshold default_config \<le> calculate_fuzzy_similarity default_config (df ! i) (df ! j)"
    unfolding s by (simp add: default_config_def)
  from fuzzy_emits [OF assms(1,2) this] show ?thesis
    unfolding s empty_fields_reasons [OF assms(3,4)] by simp
qed

theorem empty_fields_fuzzy_duplicate_witness:
  "calculate_fuzzy_similarity default_config row_e1 row_e2 = 1
   \<and> \<lparr> job1_id = ''0'', job2_id = ''1'', similarity_score = 1, match_type = ''fuzzy'',
         reasons = [''very_similar_titles'', ''same_company'', ''same_location''],
         confidence = 95 / 100 \<rparr>
       \<in> set (find_fuzzy_duplicates default_config [row_e1, row_e2])"
  using empty_fields_fuzzy_duplicate [of 0 1 "[row_e1, row_e2]"]
  by (simp add: compared_fields_empty_def row_e1_def row_e2_def)

section \<open>Symmetry of the scorers\<close>

lemma add_field_sym:
  "ratio_symmetric_on f1 f2 \<Longrightarrow> add_field f2 f1 w t = add_field f1 f2 w t"
  by (auto simp: ratio_symmetric_on_def add_field_def split: option.splits)

text \<open>
  C7, as the code has it. Each scorer gives the same score in both argument orders when
  the ratio of every field it compares does: title and company for the cross-source
  scorer, and location and description as well for the fuzzy scorer. The ratio itself
  depends on the order of its arguments.
\<close>

theorem scorers_symmetric_when_ratios_are:
  assumes "ratio_symmetric_on (title_clean job1) (title_clean job2)"
    and "ratio_symmetric_on (company_normalized job1) (company_normalized job2)"
  shows "calculate_cross_source_similarity job2 job1
           = calculate_cross_source_similarity job1 job2
         \<and> (ratio_symmetric_on (location_clean job1) (location_clean job2)
              \<longrightarrow> ratio_symmetric_on (description_clean job1) (description_clean job2)
              \<longrightarrow> calculate_fuzzy_similarity cfg job2 job1
                    = calculate_fuzzy_similarity cfg job1 job2)"
  by (simp add: calculate_fuzzy_similarity_def calculate_cross_source_similarity_def
      add_field_sym [OF assms(1)] add_field_sym [OF assms(2)] add_field_sym)

lemma ratio_tide_tied: "ratio ''tide'' ''tied'' = 3 / 4" "ratio ''tied'' ''tide'' = 3 / 4"
  by code_simp+

theorem scorers_symmetric_when_ratios_are_witness:
  "calculate_fuzzy_similarity default_config row_tied row_tide
     = calculate_fuzzy_similarity default_config row_tide row_tied
   \<and> calculate_cross_source_similarity row_tied row_tide
     = calculate_cross_source_similarity row_tide row_tied"
proof -
  have t: "ratio_symmetric_on (title_clean row_tide) (title_clean row_tied)"
    by (simp add: ratio_symmetric_on_def row_tide_def row_tied_def ratio_tide_tied)
  have c: "ratio_symmetric_on (company_normalized row_tide) (company_normalized row_tied)"
    by (simp add: ratio_symmetric_on_def row_tide_def row_tied_def)
  have l: "ratio_symmetric_on (location_clean row_tide) (location_clean row_tied)"
    by (simp add: ratio_symmetric_on_def row_tide_def row_tied_def)
  have d: "ratio_symmetric_on (description_clean row_tide) (description_clean row_tied)"
    by (simp add: ratio_symmetric_on_def row_tide_def row_tied_def)
  from scorers_symmetric_when_ratios_are [OF t c, of default_config] l d
  show ?thesis by blast
qed

text \<open>The claim as the specification states it fails for both scorers: the ratio of
  \<open>tide\<close> and \<open>diet\<close> is 0.25 in one order and 0.5 in the other.\<close>

theorem scorers_not_symmetric:
  "calculate_fuzzy_similarity default_config row_tide row_diet = 4 / 7
   \<and> calculate_fuzzy_similarity default_config row_diet row_tide = 5 / 7
   \<and> calculate_cross_source_similarity row_tide row_diet = 55 / 100
   \<and> calculate_cross_source_similarity row_diet row_tide = 7 / 10
   \<and> calculate_fuzzy_similarity default_config row_tide row_diet
       \<noteq> calculate_fuzzy_similarity default_config row_diet row_tide
   \<and> calculate_cross_source_similarity row_tide row_diet
       \<noteq> calculate_cross_source_similarity row_diet row_tide"
  by (simp add: calculate_fuzzy_similarity_def calculate_cross_source_similarity_def
      add_field_def default_config_def row_tide_def row_diet_def ratio_tide_diet
      ratio_diet_tide ratio_same_1)

section \<open>Confidence of the non-exact strategies\<close>

lemma cross_source_similarity_range:
  "0 \<le> calculate_cross_source_similarity job1 job2
   \<and> calculate_cross_source_similarity job1 job2 \<le> 1"
proof -
  define T where "T \<longleftrightarrow> title_clean job1 \<noteq> None \<and> title_clean job2 \<noteq> None"
  define C where "C \<longleftrightarrow> company_normalized job1 \<noteq> None \<and> company_normalized job2 \<noteq> None"
  define p where "p = ratio (opt_text (title_clean job1)) (opt_text (title_clean job2))"
  define q where "q = ratio (opt_text (company_normalized job1))
                            (opt_text (company_normalized job2))"
  have e1: "add_field (title_clean job1) (title_clean job2) w t
              = (if T then (fst t + p * w, snd t + w) else t)" for w t
    unfolding T_def p_def by (rule add_field_cases)
  have e2: "add_field (company_normalized job1) (company_normalized job2) w t
              = (if C then (fst t + q * w, snd t + w) else t)" for w t
    unfolding C_def q_def by (rule add_field_cases)
  have s: "calculate_cross_source_similarity job1 job2
             = (if T then (if C then p * (6 / 10) + q * (4 / 10) else p)
                else (if C then q else 0))"
    unfolding calculate_cross_source_similarity_def e1 e2 by (simp add: Let_def)
  have "0 \<le> p \<and> p \<le> 1 \<and> 0 \<le> q \<and> q \<le> 1"
    using ratio_range by (simp add: p_def q_def)
  then show ?thesis unfolding s by simp
qed

lemma fuzzy_confidence:
  assumes "m \<in> set (find_fuzzy_duplicates cfg df)"
  shows "confidence m = min (similarity_score m) (95 / 100) \<and> confidence m < 1
         \<and> confidence m \<le> similarity_score m"
  using assms by (auto simp: find_fuzzy_duplicates_def Let_def split: if_splits)

lemma semantic_confidence:
  assumes "\<forall>texts sims i j. cosine texts = Some sims \<longrightarrow> 0 \<le> sims i j \<and> sims i j \<le> 1"
    and "m \<in> set (find_semantic_duplicates cfg cosine df)"
  shows "confidence m = similarity_score m * (8 / 10) \<and> confidence m < 1
         \<and> confidence m \<le> similarity_score m"
proof -
  from assms(2) obtain sims i j where
    c: "Some sims = cosine (map (\<lambda>row. opt_text (title_clean row) @ '' ''
                       @ opt_text (description_clean row)) df)"
    and m: "similarity_score m = sims i j" "confidence m = sims i j * (8 / 10)"
    by (auto simp: find_semantic_duplicates_def Let_def split: if_splits option.splits)
  from assms(1) c [symmetric] have "0 \<le> sims i j \<and> sims i j \<le> 1" by blast
  with m show ?thesis by simp
qed

lemma cross_pairs_confidence:
  assumes "m \<in> set (cross_pairs cfg df s1 s2)"
  shows "confidence m = similarity_score m * (9 / 10) \<and> confidence m < 1
         \<and> confidence m \<le> similarity_score m"
proof -
  from assms obtain job1 job2 where
    m: "similarity_score m = calculate_cross_source_similarity job1 job2"
       "confidence m = calculate_cross_source_similarity job1 job2 * (9 / 10)"
    by (auto simp: cross_pairs_def Let_def split: if_splits)
  from cross_source_similarity_range [of job1 job2] m show ?thesis by simp
qed

lemma cross_source_confidence:
  assumes "m \<in> set (find_cross_source_duplicates cfg df)"
  shows "confidence m = similarity_score m * (9 / 10) \<and> confidence m < 1
         \<and> confidence m \<le> similarity_score m"
  using assms cross_pairs_confidence
  by (auto simp: find_cross_source_duplicates_def Let_def)

text \<open>
  C3. A match of the fuzzy strategy has confidence \<open>min(score, 0.95)\<close>, one of the
  semantic strategy \<open>score \<times> 0.8\<close>, one of the cross-source strategy \<open>score \<times> 0.9\<close>;
  each is strictly below 1.0 and at most the similarity score of its match. The cosine
  similarities are scikit-learn's; the hypothesis is that they lie between 0 and 1.
\<close>

theorem non_exact_confidence_below_one:
  assumes "\<forall>texts sims i j. cosine texts = Some sims \<longrightarrow> 0 \<le> sims i j \<and> sims i j \<le> 1"
  shows "(\<forall>m \<in> set (find_fuzzy_duplicates cfg df).
            confidence m = min (similarity_score m) (95 / 100) \<and> confidence m < 1
            \<and> confidence m \<le> similarity_score m)
       \<and> (\<forall>m \<in> set (find_semantic_duplicates cfg cosine df).
            confidence m = similarity_score m * (8 / 10) \<and> confidence m < 1
            \<and> confidence m \<le> similarity_score m)
       \<and> (\<forall>m \<in> set (find_cross_source_duplicates cfg df).
            confidence m = similarity_score m * (9 / 10) \<and> confidence m < 1
            \<and> confidence m \<le> similarity_score m)"
  using fuzzy_confidence semantic_confidence [OF assms] cross_source_confidence by blast

lemma ratio_same_2: "ratio ''developer'' ''developer'' = 1" "ratio ''techcorp'' ''techcorp'' = 1"
  "ratio ''ktm'' ''ktm'' = 1"
  by code_simp+

lemma fuzzy_rows_ab: "find_fuzzy_duplicates default_config [row_a, row_b] = [fuzzy_ab]"
  by (simp add: find_fuzzy_duplicates_def index_pairs_def upt_rec
      calculate_fuzzy_similarity_def get_similarity_reasons_def add_field_def
      default_config_def row_a_def row_b_def fuzzy_ab_def ratio_same_2)

lemma semantic_rows_ab:
  "find_semantic_duplicates default_config cosine_09 [row_a, row_b] = [semantic_ab]"
  by (simp add: find_semantic_duplicates_def index_pairs_def upt_rec cosine_09_def
      default_config_def row_a_def row_b_def semantic_ab_def opt_text_def)

lemma cross_rows_ab: "find_cross_source_duplicates default_config [row_a, row_b] = [cross_ab]"
  by (simp add: find_cross_source_duplicates_def cross_pairs_def rows_of_source_def
      index_pairs_def upt_rec calculate_cross_source_similarity_def add_field_def
      default_config_def row_a_def row_b_def cross_ab_def ratio_same_2 opt_text_def)

theorem non_exact_confidence_below_one_witness:
  "fuzzy_ab \<in> set (find_fuzzy_duplicates default_config [row_a, row_b])
   \<and> semantic_ab \<in> set (find_semantic_duplicates default_config cosine_09 [row_a, row_b])
   \<and> cross_ab \<in> set (find_cross_source_duplicates default_config [row_a, row_b])
   \<and> confidence fuzzy_ab < 1 \<and> confidence semantic_ab < 1 \<and> confidence cross_ab < 1"
proof -
  have c: "\<forall>texts sims i j. cosine_09 texts = Some sims \<longrightarrow> 0 \<le> sims i j \<and> sims i j \<le> 1"
    by (auto simp: cosine_09_def)
  have f: "fuzzy_ab \<in> set (find_fuzzy_duplicates default_config [row_a, row_b])"
    by (simp add: fuzzy_rows_ab)
  have s: "semantic_ab \<in> set (find_semantic_duplicates default_config cosine_09 [row_a, row_b])"
    by (simp add: semantic_rows_ab)
  have x: "cross_ab \<in> set (find_cross_source_duplicates default_config [row_a, row_b])"
    by (simp add: cross_rows_ab)
  from non_exact_confidence_below_one [OF c, of default_config "[row_a, row_b]"] f s x
  show ?thesis by blast
qed

section \<open>Consolidation\<close>

lemma same_pair_key: "same_pair e d \<longleftrightarrow> pair_key e = pair_key d"
  unfolding same_pair_def pair_key_def
  by (auto simp: doubleton_eq_iff min_def max_def)

lemma first_best_other:
  assumes "first_best ms d" and "\<not> same_pair e d"
  shows "first_best (ms @ [e]) d"
proof -
  from assms(1) obtain pre post where
    p: "ms = pre @ d # post"
       "\<forall>x \<in> set pre. same_pair x d \<longrightarrow> confidence x < confidence d"
       "\<forall>x \<in> set post. same_pair x d \<longrightarrow> confidence x \<le> confidence d"
    unfolding first_best_def by blast
  have "ms @ [e] = pre @ d # (post @ [e])" using p(1) by simp
  moreover have "\<forall>x \<in> set (post @ [e]). same_pair x d \<longrightarrow> confidence x \<le> confidence d"
    using p(3) assms(2) by auto
  ultimately show ?thesis unfolding first_best_def using p(2) by blast
qed

lemma first_best_weaker:
  assumes "first_best ms d" and "confidence e \<le> confidence d"
  shows "first_best (ms @ [e]) d"
proof -
  from assms(1) obtain pre post where
    p: "ms = pre @ d # post"
       "\<forall>x \<in> set pre. same_pair x d \<longrightarrow> confidence x < confidence d"
       "\<forall>x \<in> set post. same_pair x d \<longrightarrow> confidence x \<le> confidence d"
    unfolding first_best_def by blast
  have "ms @ [e] = pre @ d # (post @ [e])" using p(1) by simp
  moreover have "\<forall>x \<in> set (post @ [e]). same_pair x d \<longrightarrow> confidence x \<le> confidence d"
    using p(3) assms(2) by auto
  ultimately show ?thesis unfolding first_best_def using p(2) by blast
qed

lemma first_best_new:
  assumes "\<forall>x \<in> set ms. same_pair x e \<longrightarrow> confidence x < confidence e"
  shows "first_best (ms @ [e]) e"
  unfolding first_best_def using assms by (intro exI [of _ ms] exI [of _ "[]"]) simp

lemma first_best_max:
  assumes "first_best ms d" and "x \<in> set ms" and "same_pair x d"
  shows "confidence x \<le> confidence d"
proof -
  from assms(1) obtain pre post where
    p: "ms = pre @ d # post"
       "\<forall>x \<in> set pre. same_pair x d \<longrightarrow> confidence x < confidence d"
       "\<forall>x \<in> set post. same_pair x d \<longrightarrow> confidence x \<le> confidence d"
    unfolding first_best_def by blast
  from assms(2) p(1) have "x \<in> set pre \<or> x = d \<or> x \<in> set post" by auto
  then show ?thesis using p(2,3) assms(3) by fastforce
qed

lemma existing_index_Some:
  "existing_index k ds = Some i \<Longrightarrow> i < length ds \<and> pair_key (ds ! i) = k"
proof (induction ds arbitrary: i)
  case Nil
  then show ?case by simp
next
  case (Cons d ds)
  show ?case
  proof (cases "pair_key d = k")
    case True
    then show ?thesis using Cons.prems by simp
  next
    case False
    then obtain i' where "existing_index k ds = Some i'" "i = Suc i'"
      using Cons.prems by auto
    then show ?thesis using Cons.IH [of i'] by simp
  qed
qed

lemma existing_index_None:
  "existing_index k ds = None \<Longrightarrow> k \<notin> pair_key ` set ds"
  by (induction ds) (auto split: if_splits)

lemma consolidate_step_inv:
  assumes "consolidated processed st"
  shows "\<exists>st'. consolidate_step e st = Inr st' \<and> consolidated (processed @ [e]) st'"
proof -
  obtain al seen where st: "st = (al, seen)" by (cases st)
  from assms st have
    seen: "seen = pair_key ` set al" and
    dist: "distinct (map pair_key al)" and
    keys: "pair_key ` set al = pair_key ` set processed" and
    best: "\<forall>d \<in> set al. first_best processed d"
    by (simp_all add: consolidated_def)
  show ?thesis
  proof (cases "pair_key e \<in> seen")
    case False
    have step: "consolidate_step e st = Inr (al @ [e], insert (pair_key e) seen)"
      using False st by (simp add: consolidate_step_def)
    have new: "\<forall>x \<in> set processed. same_pair x e \<longrightarrow> confidence x < confidence e"
    proof (intro ballI impI)
      fix x assume "x \<in> set processed" "same_pair x e"
      then have "pair_key e \<in> pair_key ` set processed"
        by (metis imageI same_pair_key)
      with False seen keys show "confidence x < confidence e" by simp
    qed
    have old: "\<forall>d \<in> set al. first_best (processed @ [e]) d"
    proof
      fix d assume d: "d \<in> set al"
      then have "\<not> same_pair e d" using False seen by (auto simp: same_pair_key)
      with best d show "first_best (processed @ [e]) d" by (intro first_best_other) auto
    qed
    have "consolidated (processed @ [e]) (al @ [e], insert (pair_key e) seen)"
      using seen dist keys False old first_best_new [OF new]
      by (auto simp: consolidated_def)
    with step show ?thesis by blast
  next
    case True
    then obtain idx where idx: "existing_index (pair_key e) al = Some idx"
      using existing_index_None [of "pair_key e" al] seen by (cases "existing_index (pair_key e) al") auto
    from existing_index_Some [OF idx] have
      lt: "idx < length al" and key: "pair_key (al ! idx) = pair_key e" by simp_all
    define old where "old = al ! idx"
    have old_in: "old \<in> set al" using lt by (simp add: old_def)
    have old_best: "first_best processed old" using best old_in by blast
    have old_key: "same_pair e old" using key by (simp add: same_pair_key old_def)
    show ?thesis
    proof (cases "confidence old < confidence e")
      case less: True
      have step: "consolidate_step e st = Inr (al[idx := e], seen)"
        using True st idx less by (simp add: consolidate_step_def old_def)
      have km: "map pair_key (al[idx := e]) = map pair_key al"
        using key lt by (simp add: map_update list_update_same_conv)
      have sets: "pair_key ` set (al[idx := e]) = pair_key ` set al"
        using km by (metis set_map)
      have new: "\<forall>x \<in> set processed. same_pair x e \<longrightarrow> confidence x < confidence e"
      proof (intro ballI impI)
        fix x assume x: "x \<in> set processed" "same_pair x e"
        then have "same_pair x old" using old_key by (simp add: same_pair_key)
        from first_best_max [OF old_best x(1) this] less
        show "confidence x < confidence e" by simp
      qed
      have all: "\<forall>d \<in> set (al[idx := e]). first_best (processed @ [e]) d"
      proof
        fix d assume "d \<in> set (al[idx := e])"
        then obtain j where j: "j < length al" "d = al[idx := e] ! j"
          by (auto simp: in_set_conv_nth)
        show "first_best (processed @ [e]) d"
        proof (cases "j = idx")
          case True
          then have "d = e" using j lt by simp
          then show ?thesis using first_best_new [OF new] by simp
        next
          case False
          then have d: "d = al ! j" using j by simp
          have "pair_key (al ! j) \<noteq> pair_key (al ! idx)"
            using dist False j(1) lt by (metis length_map nth_eq_iff_index_eq nth_map)
          then have "\<not> same_pair e d" using key d by (simp add: same_pair_key)
          moreover have "first_best processed d" using best d j(1) by simp
          ultimately show ?thesis by (intro first_best_other)
        qed
      qed
      have "consolidated (processed @ [e]) (al[idx := e], seen)"
        using seen dist keys True all sets km by (auto simp: consolidated_def)
      with step show ?thesis by blast
    next
      case geq: False
      have step: "consolidate_step e st = Inr (al, seen)"
        using True st idx geq by (simp add: consolidate_step_def old_def)
      have all: "\<forall>d \<in> set al. first_best (processed @ [e]) d"
      proof
        fix d assume d: "d \<in> set al"
        show "first_best (processed @ [e]) d"
        proof (cases "d = old")
          case True
          then show ?thesis using old_best geq by (intro first_best_weaker) auto
        next
          case False
          then have "pair_key d \<noteq> pair_key old"
            using dist d old_in by (meson distinct_map inj_on_def)
          then have "\<not> same_pair e d" using key by (simp add: same_pair_key old_def)
          with best d show ?thesis by (intro first_best_other) auto
        qed
      qed
      have "consolidated (processed @ [e]) (al, seen)"
        using seen dist keys True all by (auto simp: consolidated_def)
      with step show ?thesis by blast
    qed
  qed
qed

lemma consolidate_loop_inv:
  assumes "consolidated processed st"
  shows "\<exists>st'. consolidate_loop ms st = Inr st' \<and> consolidated (processed @ ms) st'"
  using assms
proof (induction ms arbitrary: processed st)
  case Nil
  then show ?case by simp
next
  case (Cons e ms)
  from consolidate_step_inv [OF Cons.prems, of e] obtain st1 where
    s: "consolidate_step e st = Inr st1" "consolidated (processed @ [e]) st1" by blast
  from Cons.IH [OF s(2)] s(1) show ?case by simp
qed

lemma consolidate_duplicates_correct:
  "\<exists>out. consolidate_duplicates results = Inr out
     \<and> distinct (map (\<lambda>d. {job1_id d, job2_id d}) out)
     \<and> (\<forall>m \<in> set (method_matches results). \<exists>d \<in> set out. same_pair m d)
     \<and> (\<forall>d \<in> set out. first_best (method_matches results) d)"
proof -
  have "consolidated [] ([], {})" by (simp add: consolidated_def)
  from consolidate_loop_inv [OF this, of "method_matches results"]
  obtain al seen where
    l: "consolidate_loop (method_matches results) ([], {}) = Inr (al, seen)" and
    c: "consolidated (method_matches results) (al, seen)"
    by auto
  define out where "out = sort_key (\<lambda>x. - confidence x) al"
  have r: "consolidate_duplicates results = Inr out"
    using l by (simp add: consolidate_duplicates_def out_def)
  have s: "set out = set al" by (simp add: out_def)
  from c have dist: "distinct (map pair_key al)"
    and keys: "pair_key ` set al = pair_key ` set (method_matches results)"
    and best: "\<forall>d \<in> set al. first_best (method_matches results) d"
    by (simp_all add: consolidated_def)
  have "distinct al" "inj_on pair_key (set al)"
    using dist by (simp_all add: distinct_map)
  then have "distinct out" "inj_on (\<lambda>d. {job1_id d, job2_id d}) (set out)"
    using same_pair_key unfolding s same_pair_def inj_on_def
    by (simp_all add: out_def)
  then have d: "distinct (map (\<lambda>d. {job1_id d, job2_id d}) out)"
    by (simp add: distinct_map)
  have e: "\<forall>m \<in> set (method_matches results). \<exists>d \<in> set out. same_pair m d"
  proof
    fix m assume "m \<in> set (method_matches results)"
    then have "pair_key m \<in> pair_key ` set al" using keys by blast
    then show "\<exists>d \<in> set out. same_pair m d" unfolding s by (auto simp: same_pair_key)
  qed
  from r d e best s show ?thesis by auto
qed

lemma method_matches_four:
  "method_matches [(''exact_duplicates'', exact), (''fuzzy_duplicates'', fuzzy),
                   (''semantic_duplicates'', semantic), (''cross_source_duplicates'', cross),
                   (''summary'', other)]
   = exact @ fuzzy @ semantic @ cross"
  by (simp add: method_matches_def)

text \<open>
  C1. For the four per-strategy lists, in the order exact, fuzzy, semantic, cross-source,
  consolidation returns a list (it raises nothing) with at most one entry per unordered
  pair of ids; every reported pair has its entry; and the entry of a pair is the match of
  highest confidence among those reported for the pair, the first such in that order.
\<close>

theorem consolidate_unique_best:
  "\<exists>out. consolidate_duplicates
            [(''exact_duplicates'', exact), (''fuzzy_duplicates'', fuzzy),
             (''semantic_duplicates'', semantic), (''cross_source_duplicates'', cross),
             (''summary'', [])] = Inr out
     \<and> distinct (map (\<lambda>d. {job1_id d, job2_id d}) out)
     \<and> (\<forall>m \<in> set (exact @ fuzzy @ semantic @ cross). \<exists>d \<in> set out. same_pair m d)
     \<and> (\<forall>d \<in> set out. first_best (exact @ fuzzy @ semantic @ cross) d)"
  using consolidate_duplicates_correct
          [of "[(''exact_duplicates'', exact), (''fuzzy_duplicates'', fuzzy),
                (''semantic_duplicates'', semantic), (''cross_source_duplicates'', cross),
                (''summary'', [])]"]
  unfolding method_matches_four .

lemma consolidate_sample:
  "consolidate_duplicates
     [(''exact_duplicates'', []), (''fuzzy_duplicates'', [fuzzy_12]),
      (''semantic_duplicates'', []), (''cross_source_duplicates'', [cross_21]),
      (''summary'', [])] = Inr [cross_21]"
  by (simp add: consolidate_duplicates_def method_matches_def consolidate_step_def
      pair_key_def fuzzy_12_def cross_21_def min_def max_def)

theorem consolidate_unique_best_witness:
  "consolidate_duplicates
     [(''exact_duplicates'', []), (''fuzzy_duplicates'', [fuzzy_12]),
      (''semantic_duplicates'', []), (''cross_source_duplicates'', [cross_21]),
      (''summary'', [])] = Inr [cross_21]
   \<and> same_pair fuzzy_12 cross_21
   \<and> first_best ([] @ [fuzzy_12] @ [] @ [cross_21]) cross_21"
  using consolidate_unique_best [of "[]" "[fuzzy_12]" "[]" "[cross_21]"]
  unfolding consolidate_sample by auto

section \<open>Exact strategy\<close>

lemma first_best_mem: "first_best ms d \<Longrightarrow> d \<in> set ms"
  by (auto simp: first_best_def)

lemma exact_strategy_matches:
  "m \<in> set (find_exact_duplicates df)
   \<Longrightarrow> confidence m = 1 \<and> similarity_score m = 1 \<and> match_type m = ''exact''"
  by (auto simp: find_exact_duplicates_def exact_match_of_def Let_def split: if_splits)

lemma other_strategies_type:
  "m \<in> set (find_fuzzy_duplicates cfg df) \<Longrightarrow> match_type m = ''fuzzy''"
  "m \<in> set (find_semantic_duplicates cfg cosine df) \<Longrightarrow> match_type m = ''semantic''"
  "m \<in> set (find_cross_source_duplicates cfg df) \<Longrightarrow> match_type m = ''cross_source''"
  by (auto simp: find_fuzzy_duplicates_def find_semantic_duplicates_def
      find_cross_source_duplicates_def cross_pairs_def Let_def
      split: if_splits option.splits)

lemma consolidated_exact:
  assumes "detect_duplicates md5 cosine cfg jobs_data = Inr r"
    and "m \<in> set (consolidated_duplicates r)" and "match_type m = ''exact''"
  shows "confidence m = 1 \<and> similarity_score m = 1"
proof -
  from assms(1) obtain df where df: "preprocess_data md5 jobs_data = Inr df"
    by (auto simp: detect_duplicates_def split: sum.splits)
  define results where "results =
     [(''exact_duplicates'', find_exact_duplicates df),
      (''fuzzy_duplicates'', find_fuzzy_duplicates cfg df),
      (''semantic_duplicates'', find_semantic_duplicates cfg cosine df),
      (''cross_source_duplicates'', find_cross_source_duplicates cfg df),
      (''summary'', [])]"
  from assms(1) df have c: "consolidate_duplicates results = Inr (consolidated_duplicates r)"
    by (auto simp: detect_duplicates_def Let_def results_def split: sum.splits)
  from consolidate_duplicates_correct [of results] c assms(2)
  have "first_best (method_matches results) m" by auto
  then have "m \<in> set (method_matches results)" by (rule first_best_mem)
  then have "m \<in> set (find_exact_duplicates df) \<or> m \<in> set (find_fuzzy_duplicates cfg df)
             \<or> m \<in> set (find_semantic_duplicates cfg cosine df)
             \<or> m \<in> set (find_cross_source_duplicates cfg df)"
    by (auto simp: results_def method_matches_four)
  moreover have "m \<notin> set (find_fuzzy_duplicates cfg df)"
    using other_strategies_type(1) [of m cfg df] assms(3) by auto
  moreover have "m \<notin> set (find_semantic_duplicates cfg cosine df)"
    using other_strategies_type(2) [of m cfg cosine df] assms(3) by auto
  moreover have "m \<notin> set (find_cross_source_duplicates cfg df)"
    using other_strategies_type(3) [of m cfg df] assms(3) by auto
  ultimately have "m \<in> set (find_exact_duplicates df)" by blast
  then show ?thesis using exact_strategy_matches by blast
qed

text \<open>
  C2. Every match that the exact strategy produces has confidence 1.0 and similarity
  score 1.0 (and match type \<open>exact\<close>), for every frame; and in the consolidated list of an
  analysis run every match of type \<open>exact\<close> has confidence 1.0 and similarity score 1.0.
\<close>

theorem exact_matches_certain:
  "(\<forall>m \<in> set (find_exact_duplicates df).
      confidence m = 1 \<and> similarity_score m = 1 \<and> match_type m = ''exact'')
   \<and> (\<forall>r. detect_duplicates md5 cosine cfg jobs_data = Inr r \<longrightarrow>
          (\<forall>m \<in> set (consolidated_duplicates r).
             match_type m = ''exact'' \<longrightarrow> confidence m = 1 \<and> similarity_score m = 1))"
  using exact_strategy_matches consolidated_exact by blast

theorem exact_matches_certain_witness:
  "dup_ab \<in> set (find_exact_duplicates [row_a, row_b])
   \<and> confidence dup_ab = 1 \<and> similarity_score dup_ab = 1 \<and> match_type dup_ab = ''exact''"
proof -
  have mem: "dup_ab \<in> set (find_exact_duplicates [row_a, row_b])"
    by (simp add: find_exact_duplicates_def index_pairs_def row_a_def row_b_def dup_ab_def
        exact_match_of_def upt_rec)
  from exact_matches_certain [of "[row_a, row_b]"] mem
  have "confidence dup_ab = 1 \<and> similarity_score dup_ab = 1 \<and> match_type dup_ab = ''exact''"
    by blast
  with mem show ?thesis by (rule conjI)
qed

section \<open>Whole-word occurrences\<close>

lemma one_word_wordy: "one_word p \<Longrightarrow> wordy p"
  by (cases p) (auto simp: one_word_def wordy_def list_all_iff)

lemma starts_nonword_simps [simp]:
  "starts_nonword []" "starts_nonword (c # cs) \<longleftrightarrow> \<not> is_word c"
  by (simp_all add: starts_nonword_def)

lemma runs_word: "list_all is_word w \<Longrightarrow> runs cur (w @ s) = runs (cur @ w) s"
  by (induction w arbitrary: cur) simp_all

lemma runs_boundary_right:
  "starts_nonword s \<Longrightarrow> runs cur (x @ s) = runs cur x @ runs [] s"
proof (induction x arbitrary: cur)
  case Nil
  then show ?case by (cases s) (simp_all add: flush_def)
next
  case (Cons c x)
  then show ?case by simp
qed

lemma runs_boundary_left:
  "x \<noteq> [] \<Longrightarrow> \<not> is_word (last x) \<Longrightarrow> runs cur (x @ y) = runs cur x @ runs [] y"
proof (induction x arbitrary: cur)
  case Nil
  then show ?case by simp
next
  case (Cons c x)
  show ?case
  proof (cases "x = []")
    case True
    then show ?thesis using Cons.prems by (simp add: flush_def)
  next
    case False
    then show ?thesis using Cons by simp
  qed
qed

lemma wordruns_nonword: "\<not> is_word c \<Longrightarrow> wordruns (c # s) = wordruns s"
  by (simp add: wordruns_def flush_def)

lemma wordruns_run:
  assumes "one_word w" and "starts_nonword s"
  shows "wordruns (w @ s) = w # wordruns s"
proof -
  have "runs [] (w @ s) = runs w s"
    using assms(1) runs_word [of w "[]" s] by (simp add: one_word_def)
  also have "\<dots> = w # runs [] s"
    using assms by (cases s) (simp_all add: flush_def one_word_def)
  finally show ?thesis by (simp add: wordruns_def)
qed

lemma wordruns_append_right:
  "starts_nonword s \<Longrightarrow> wordruns (x @ s) = wordruns x @ wordruns s"
  by (simp add: wordruns_def runs_boundary_right)

lemma wordruns_append_left:
  "x = [] \<or> \<not> is_word (last x) \<Longrightarrow> wordruns (x @ y) = wordruns x @ wordruns y"
  by (cases "x = []") (simp_all add: wordruns_def runs_boundary_left flush_def)

subsection \<open>How the scan treats word runs\<close>

lemma match_here_head:
  assumes "match_here p prev s"
  shows "s \<noteq> [] \<and> hd s = hd p"
proof -
  from assms have p: "p \<noteq> []" "take (length p) s = p" by (simp_all add: match_here_def)
  then have "s \<noteq> []" by auto
  moreover have "hd (take (length p) s) = hd s" using p by (cases s; cases p) auto
  ultimately show ?thesis using p by simp
qed

lemma match_here_context:
  assumes "match_here p prev s" and "wordy p"
  shows "\<not> is_word_opt prev"
proof -
  from match_here_head [OF assms(1)] obtain c cs where s: "s = c # cs" "c = hd p"
    by (cases s) auto
  then have "is_word_opt (head_opt s)"
    using assms(2) by (simp add: head_opt_def is_word_opt_def wordy_def)
  then show ?thesis using assms(1) by (simp add: match_here_def boundary_def)
qed

lemma match_here_split:
  assumes "match_here p prev s" and "wordy p"
  shows "\<exists>s'. s = p @ s' \<and> starts_nonword s'"
proof -
  define s' where "s' = drop (length p) s"
  from assms(1) have t: "take (length p) s = p" by (simp add: match_here_def)
  then have "s = p @ s'" unfolding s'_def by (metis append_take_drop_id)
  moreover have "\<not> is_word_opt (head_opt s')"
    using assms by (simp add: match_here_def boundary_def s'_def wordy_def is_word_opt_def)
  then have "starts_nonword s'"
    by (cases s') (simp_all add: head_opt_def is_word_opt_def)
  ultimately show ?thesis by blast
qed

lemma sub_word_nonword:
  assumes "wordy p" and "\<not> is_word c"
  shows "sub_word p prev (c # cs) = c # sub_word p (Some c) cs"
proof -
  have "\<not> match_here p prev (c # cs)"
    using match_here_head [of p prev "c # cs"] assms by (auto simp: wordy_def)
  then show ?thesis by simp
qed

lemma sub_word_starts_nonword:
  "wordy p \<Longrightarrow> starts_nonword s \<Longrightarrow> starts_nonword (sub_word p prev s)"
  by (cases s) (simp_all add: sub_word_nonword del: sub_word.simps(2))

lemma sub_word_in_run:
  assumes "wordy p" and "is_word_opt prev" and "list_all is_word w"
  shows "sub_word p prev (w @ s) = w @ sub_word p (context_after prev w) s"
  using assms(2,3)
proof (induction w arbitrary: prev)
  case Nil
  then show ?case by (simp add: context_after_def)
next
  case (Cons c w)
  have "\<not> match_here p prev (c # w @ s)"
    using match_here_context [OF _ assms(1)] Cons.prems(1) by blast
  moreover have "is_word_opt (Some c)" using Cons.prems(2) by (simp add: is_word_opt_def)
  moreover have "context_after (Some c) w = context_after prev (c # w)"
    by (simp add: context_after_def)
  ultimately show ?case using Cons.IH [of "Some c"] Cons.prems(2) by simp
qed

lemma sub_word_run_nomatch:
  assumes "wordy p" and "one_word w" and "\<not> match_here p prev (w @ s)"
  shows "sub_word p prev (w @ s) = w @ sub_word p (Some (last w)) s"
proof -
  from assms(2) obtain c w' where w: "w = c # w'" "is_word c" "list_all is_word w'"
    by (cases w) (auto simp: one_word_def)
  have "sub_word p prev (w @ s) = c # sub_word p (Some c) (w' @ s)"
    using assms(3) w(1) by simp
  also have "sub_word p (Some c) (w' @ s) = w' @ sub_word p (context_after (Some c) w') s"
    using w by (intro sub_word_in_run [OF assms(1)]) (simp_all add: is_word_opt_def)
  also have "context_after (Some c) w' = Some (last w)"
    using w(1) by (simp add: context_after_def)
  finally show ?thesis using w(1) by simp
qed

lemma run_split:
  assumes "is_word c"
  shows "one_word (takeWhile is_word (c # cs)) \<and> starts_nonword (dropWhile is_word (c # cs))"
proof -
  have "list_all is_word (takeWhile is_word (c # cs))"
    unfolding list_all_iff by (meson set_takeWhileD)
  moreover have "takeWhile is_word (c # cs) \<noteq> []" using assms by simp
  moreover have "starts_nonword (dropWhile is_word (c # cs))"
    using hd_dropWhile [of is_word "c # cs"]
    by (cases "dropWhile is_word (c # cs)") (auto simp: starts_nonword_def)
  ultimately show ?thesis by (simp add: one_word_def)
qed

lemma sub_word_runs:
  assumes "wordy p" and "\<not> is_word_opt prev \<or> starts_nonword s"
  shows "sub_word_ok p s (sub_word p prev s)"
  using assms(2)
proof (induction s arbitrary: prev rule: length_induct)
  case (1 s)
  show ?case
  proof (cases s)
    case Nil
    then show ?thesis by (simp add: sub_word_ok_def wordruns_def flush_def)
  next
    case (Cons c cs)
    show ?thesis
    proof (cases "is_word c")
      case False
      have "length cs < length s" using Cons by simp
      moreover have "\<not> is_word_opt (Some c) \<or> starts_nonword cs"
        using False by (simp add: is_word_opt_def)
      ultimately have ih: "sub_word_ok p cs (sub_word p (Some c) cs)"
        using "1.IH" by blast
      show ?thesis
        using ih False Cons
        by (simp add: sub_word_ok_def sub_word_nonword [OF assms(1)] wordruns_nonword
            del: sub_word.simps(2))
    next
      case True
      then have ctx: "\<not> is_word_opt prev" using "1.prems" Cons by simp
      define w where "w = takeWhile is_word s"
      define r where "r = dropWhile is_word s"
      have s: "s = w @ r" by (simp add: w_def r_def)
      have wr: "one_word w" "starts_nonword r"
        using run_split [OF True, of cs] Cons by (simp_all add: w_def r_def)
      show ?thesis
      proof (cases "match_here p prev s")
        case m: True
        from match_here_split [OF m assms(1)] obtain s' where
          s': "s = p @ s'" "starts_nonword s'" by blast
        have pne: "p \<noteq> []" using assms(1) by (simp add: wordy_def)
        have out: "sub_word p prev s = sub_word p (Some (last p)) s'"
          using m s'(1) Cons by (metis append_eq_conv_conj sub_word.simps(2))
        have "length s' < length s" using s'(1) pne by simp
        then have ih: "sub_word_ok p s' (sub_word p (Some (last p)) s')"
          using "1.IH" s'(2) by blast
        have "wordruns s = wordruns p @ wordruns s'"
          using wordruns_append_right [OF s'(2), of p] s'(1) by simp
        then show ?thesis using ih out by (auto simp: sub_word_ok_def)
      next
        case nm: False
        have out: "sub_word p prev s = w @ sub_word p (Some (last w)) r"
          using sub_word_run_nomatch [OF assms(1) wr(1), of prev r] nm s by simp
        have "length r < length s" using s wr(1) by (simp add: one_word_def)
        then have ih: "sub_word_ok p r (sub_word p (Some (last w)) r)"
          using "1.IH" wr(2) by blast
        have o: "wordruns (sub_word p prev s) = w # wordruns (sub_word p (Some (last w)) r)"
          unfolding out
          by (rule wordruns_run [OF wr(1) sub_word_starts_nonword [OF assms(1) wr(2)]])
        have i: "wordruns s = w # wordruns r"
          using wordruns_run [OF wr] s by simp
        have "w \<noteq> p"
        proof
          assume e: "w = p"
          have "head_opt s = Some c" using Cons by (simp add: head_opt_def)
          moreover have "\<not> is_word_opt (head_opt r)"
            using wr(2) by (cases r) (simp_all add: head_opt_def is_word_opt_def)
          moreover have "is_word (last p)" using assms(1) by (simp add: wordy_def)
          ultimately have "match_here p prev s"
            using e s ctx True assms(1)
            by (simp add: match_here_def boundary_def wordy_def is_word_opt_def)
          with nm show False by simp
        qed
        then show ?thesis using ih o i by (auto simp: sub_word_ok_def)
      qed
    qed
  qed
qed

subsection \<open>An occurrence shows in the word runs\<close>

lemma occurs_split:
  assumes "occurs q prev t" and "wordy q"
  shows "\<exists>u v. t = u @ q @ v \<and> \<not> is_word_opt (context_after prev u) \<and> starts_nonword v"
  using assms(1)
proof (induction t arbitrary: prev)
  case Nil
  then show ?case by simp
next
  case (Cons c cs)
  show ?case
  proof (cases "match_here q prev (c # cs)")
    case True
    from match_here_split [OF True assms(2)] obtain v where
      "c # cs = q @ v" "starts_nonword v" by blast
    moreover have "\<not> is_word_opt (context_after prev [])"
      using match_here_context [OF True assms(2)] by (simp add: context_after_def)
    ultimately show ?thesis by (metis append_Nil)
  next
    case False
    then have "occurs q (Some c) cs" using Cons.prems by simp
    from Cons.IH [OF this] obtain u v where
      uv: "cs = u @ q @ v" "\<not> is_word_opt (context_after (Some c) u)" "starts_nonword v"
      by blast
    have "c # cs = (c # u) @ q @ v" using uv(1) by simp
    moreover have "context_after prev (c # u) = context_after (Some c) u"
      by (simp add: context_after_def)
    ultimately show ?thesis using uv(2,3) by metis
  qed
qed

lemma occurs_last_word:
  assumes "occurs q None t" and "q = q1 @ w" and "one_word w"
    and "q1 = [] \<or> \<not> is_word (last q1)" and "wordy q"
  shows "w \<in> set (wordruns t)"
proof -
  from occurs_split [OF assms(1,5)] obtain u v where
    uv: "t = u @ q @ v" "\<not> is_word_opt (context_after None u)" "starts_nonword v" by blast
  define x where "x = u @ q1"
  have t: "t = x @ (w @ v)" using uv(1) assms(2) by (simp add: x_def)
  have "x = [] \<or> \<not> is_word (last x)"
  proof (cases "q1 = []")
    case True
    then show ?thesis using uv(2)
      by (cases "u = []") (simp_all add: x_def context_after_def is_word_opt_def)
  next
    case False
    then show ?thesis using assms(4) by (simp add: x_def)
  qed
  then have "wordruns t = wordruns x @ wordruns (w @ v)"
    unfolding t by (rule wordruns_append_left)
  then show ?thesis using wordruns_run [OF assms(3) uv(3)] by simp
qed

lemma no_occurrence_identity:
  "\<not> occurs p prev s \<Longrightarrow> sub_word p prev s = s"
  by (induction s arbitrary: prev) simp_all

subsection \<open>Stripping keeps the word runs\<close>

lemma space_not_word: "is_space c \<Longrightarrow> \<not> is_word c"
  by (auto simp: is_space_def is_word_def Let_def)

lemma wordruns_drop_spaces: "wordruns (dropWhile is_space s) = wordruns s"
  by (induction s) (simp_all add: wordruns_nonword space_not_word)

lemma wordruns_spaces: "list_all is_space ws \<Longrightarrow> wordruns ws = []"
  by (induction ws) (simp_all add: wordruns_nonword space_not_word, simp add: wordruns_def flush_def)

lemma wordruns_trailing_spaces:
  assumes "list_all is_space ws"
  shows "wordruns (t @ ws) = wordruns t"
proof -
  have "starts_nonword ws" using assms by (cases ws) (simp_all add: space_not_word)
  then show ?thesis using wordruns_spaces [OF assms] by (simp add: wordruns_append_right)
qed

lemma strip_decompose:
  "\<exists>ws. list_all is_space ws \<and> dropWhile is_space s = strip s @ ws"
proof -
  define d where "d = dropWhile is_space s"
  define ws where "ws = rev (takeWhile is_space (rev d))"
  have "rev d = takeWhile is_space (rev d) @ dropWhile is_space (rev d)" by simp
  then have "d = rev (dropWhile is_space (rev d)) @ ws"
    unfolding ws_def by (metis rev_append rev_rev_ident)
  moreover have "list_all is_space ws"
    unfolding ws_def list_all_iff by (metis set_rev set_takeWhileD)
  ultimately show ?thesis unfolding d_def strip_def by blast
qed

lemma wordruns_strip: "wordruns (strip s) = wordruns s"
proof -
  from strip_decompose [of s] obtain ws where
    ws: "list_all is_space ws" "dropWhile is_space s = strip s @ ws" by blast
  have "wordruns s = wordruns (strip s @ ws)"
    using wordruns_drop_spaces [of s] ws(2) by simp
  then show ?thesis using wordruns_trailing_spaces [OF ws(1)] by simp
qed

subsection \<open>The loop over the suffixes\<close>

lemma filter_outside:
  assumes "set ws \<subseteq> K"
    and "filter (\<lambda>x. x \<notin> set ws) xs = filter (\<lambda>x. x \<notin> set ws) ys"
  shows "filter (\<lambda>x. x \<notin> K) xs = filter (\<lambda>x. x \<notin> K) ys"
proof -
  have "filter (\<lambda>x. x \<notin> K) zs = filter (\<lambda>x. x \<notin> K) (filter (\<lambda>x. x \<notin> set ws) zs)" for zs
    using assms(1) by (auto simp: filter_filter intro: filter_cong)
  then show ?thesis using assms(2) by metis
qed

lemma fold_sub_word_runs:
  assumes "list_all wordy ps" and "\<forall>w \<in> A. w \<notin> set (wordruns t)" and "suffix_words ps \<subseteq> K"
  shows "(\<forall>w. w \<in> A \<or> (w \<in> set ps \<and> one_word w)
           \<longrightarrow> w \<notin> set (wordruns (fold (\<lambda>suffix normalized. sub_word suffix None normalized) ps t)))
         \<and> filter (\<lambda>x. x \<notin> K)
              (wordruns (fold (\<lambda>suffix normalized. sub_word suffix None normalized) ps t))
           = filter (\<lambda>x. x \<notin> K) (wordruns t)"
  using assms
proof (induction ps arbitrary: t A)
  case Nil
  then show ?case by simp
next
  case (Cons p ps)
  define t1 where "t1 = sub_word p None t"
  have wp: "wordy p" using Cons.prems(1) by simp
  have "sub_word_ok p t t1"
    unfolding t1_def by (rule sub_word_runs [OF wp]) (simp add: is_word_opt_def)
  then have r: "set (wordruns t1) \<subseteq> set (wordruns t)" "one_word p \<longrightarrow> p \<notin> set (wordruns t1)"
    "filter (\<lambda>x. x \<notin> set (wordruns p)) (wordruns t1)
       = filter (\<lambda>x. x \<notin> set (wordruns p)) (wordruns t)"
    by (simp_all add: sub_word_ok_def)
  have "set (wordruns p) \<subseteq> K" using Cons.prems(3) by (auto simp: suffix_words_def)
  from filter_outside [OF this r(3)]
  have k: "filter (\<lambda>x. x \<notin> K) (wordruns t1) = filter (\<lambda>x. x \<notin> K) (wordruns t)" .
  define A1 where "A1 = A \<union> {w. w = p \<and> one_word w}"
  have a: "\<forall>w \<in> A1. w \<notin> set (wordruns t1)"
    using Cons.prems(2) r by (auto simp: A1_def)
  have l: "list_all wordy ps" using Cons.prems(1) by simp
  have s: "suffix_words ps \<subseteq> K" using Cons.prems(3) by (auto simp: suffix_words_def)
  from Cons.IH [OF l a s] k show ?case by (auto simp: A1_def t1_def)
qed

lemma suffixes_wordy: "list_all wordy suffixes"
  by (simp add: suffixes_def wordy_def is_word_def)

lemma suffix_parts_ok:
  "map (\<lambda>(q1, w). q1 @ w) suffix_parts = suffixes"
  "list_all (\<lambda>(q1, w). one_word w \<and> w \<in> set suffixes \<and> (q1 = [] \<or> \<not> is_word (last q1)))
            suffix_parts"
  by (simp_all add: suffix_parts_def suffixes_def one_word_def is_word_def)

lemma normalized_runs:
  "(\<forall>w. w \<in> set suffixes \<and> one_word w \<longrightarrow> w \<notin> set (wordruns (normalize_company_name name)))
   \<and> filter (\<lambda>x. x \<notin> suffix_words suffixes) (wordruns (normalize_company_name name))
     = filter (\<lambda>x. x \<notin> suffix_words suffixes) (wordruns (lower name))"
proof (cases "name = []")
  case True
  then show ?thesis by (simp add: normalize_company_name_def lower_def wordruns_def flush_def)
next
  case False
  have "(\<forall>w. w \<in> {} \<or> (w \<in> set suffixes \<and> one_word w)
          \<longrightarrow> w \<notin> set (wordruns (fold (\<lambda>suffix normalized. sub_word suffix None normalized)
                                      suffixes (lower name))))
        \<and> filter (\<lambda>x. x \<notin> suffix_words suffixes)
             (wordruns (fold (\<lambda>suffix normalized. sub_word suffix None normalized)
                          suffixes (lower name)))
          = filter (\<lambda>x. x \<notin> suffix_words suffixes) (wordruns (lower name))"
    by (rule fold_sub_word_runs [OF suffixes_wordy]) simp_all
  then show ?thesis
    using False by (simp add: normalize_company_name_def wordruns_strip)
qed

lemma normalized_no_suffix_run:
  assumes "w \<in> set suffixes" and "one_word w"
  shows "w \<notin> set (wordruns (normalize_company_name name))"
  using normalized_runs [of name] assms by blast

lemma normalized_no_suffix:
  assumes "suffix \<in> set suffixes"
  shows "\<not> occurs suffix None (normalize_company_name name)"
proof
  assume o: "occurs suffix None (normalize_company_name name)"
  from assms suffix_parts_ok(1) obtain q1 w where
    qw: "(q1, w) \<in> set suffix_parts" "suffix = q1 @ w"
    by (metis (no_types, lifting) case_prod_conv imageE list.set_map old.prod.exhaust)
  with suffix_parts_ok(2) have
    p: "one_word w" "w \<in> set suffixes" "q1 = [] \<or> \<not> is_word (last q1)"
    by (auto simp: list_all_iff)
  have "wordy suffix" using suffixes_wordy assms by (simp add: list_all_iff)
  from occurs_last_word [OF o qw(2) p(1) p(3) this]
  show False using normalized_no_suffix_run [OF p(2) p(1)] by simp
qed

text \<open>
  C10. After \<^verbatim>\<open>_normalize_company_name\<close> no suffix of the list occurs as a whole word at
  any position of the result (\<^verbatim>\<open>\b\<close> on both sides, as the code's pattern has it), and
  the words of the lowercased name that are not words of a suffix are all kept, in order.
\<close>

theorem company_suffixes_deleted:
  "(\<forall>suffix \<in> set suffixes. \<not> occurs suffix None (normalize_company_name name))
   \<and> filter (\<lambda>x. x \<notin> suffix_words suffixes) (wordruns (normalize_company_name name))
     = filter (\<lambda>x. x \<notin> suffix_words suffixes) (wordruns (lower name))"
  using normalized_no_suffix normalized_runs by blast

lemma normalize_tech_corp_nepal: "normalize_company_name ''Tech Corp Nepal'' = ''tech  nepal''"
  by code_simp

lemma corp_occurs_mid_name: "occurs ''corp'' None (lower ''Tech Corp Nepal'')"
  by code_simp

theorem company_suffixes_deleted_witness:
  "normalize_company_name ''Tech Corp Nepal'' = ''tech  nepal''
   \<and> occurs ''corp'' None (lower ''Tech Corp Nepal'')
   \<and> \<not> occurs ''corp'' None (normalize_company_name ''Tech Corp Nepal'')"
proof -
  have "''corp'' \<in> set suffixes" by (simp add: suffixes_def)
  with company_suffixes_deleted [of "''Tech Corp Nepal''"]
  have "\<not> occurs ''corp'' None (normalize_company_name ''Tech Corp Nepal'')" by blast
  with normalize_tech_corp_nepal corp_occurs_mid_name show ?thesis by blast
qed

section \<open>Idempotence of the normaliser\<close>

lemma lower_char_idem: "lower_char (lower_char c) = lower_char c"
proof -
  define n where "n = (of_char c :: nat)"
  have "n < 256" unfolding n_def by simp
  show ?thesis
  proof (cases "(65 \<le> n \<and> n \<le> 90) \<or> (192 \<le> n \<and> n \<le> 222 \<and> n \<noteq> 215)")
    case True
    then have l: "lower_char c = char_of (n + 32)" by (simp add: lower_char_def n_def)
    have "of_char (char_of (n + 32) :: char) = n + 32" using True by auto
    then show ?thesis unfolding l using True by (auto simp: lower_char_def Let_def)
  next
    case False
    have "lower_char c = c"
      unfolding lower_char_def Let_def using False [unfolded n_def] by (rule if_not_P)
    then show ?thesis by simp
  qed
qed

lemma set_sub_word: "set (sub_word p prev s) \<subseteq> set s"
proof (induction p prev s rule: sub_word.induct)
  case (1 pat prev)
  show ?case by simp
next
  case (2 pat prev c cs)
  show ?case
  proof (cases "match_here pat prev (c # cs)")
    case True
    then show ?thesis using 2(1) set_drop_subset [of "length pat" "c # cs"] by auto
  next
    case False
    then show ?thesis using 2(2) by auto
  qed
qed

lemma set_strip: "set (strip s) \<subseteq> set s"
  unfolding strip_def by (metis set_dropWhileD set_rev subsetI)

lemma set_fold_sub_word:
  "set (fold (\<lambda>suffix normalized. sub_word suffix None normalized) ps t) \<subseteq> set t"
proof (induction ps arbitrary: t)
  case Nil
  show ?case by simp
next
  case (Cons p ps)
  show ?case using Cons [of "sub_word p None t"] set_sub_word [of p None t] by auto
qed

lemma fold_no_occurrence:
  "\<forall>p \<in> set ps. \<not> occurs p None t
   \<Longrightarrow> fold (\<lambda>suffix normalized. sub_word suffix None normalized) ps t = t"
  by (induction ps) (simp_all add: no_occurrence_identity)

lemma last_dropWhile: "dropWhile P xs \<noteq> [] \<Longrightarrow> last (dropWhile P xs) = last xs"
  by (metis last_appendR takeWhile_dropWhile_id)

lemma strip_ends:
  "strip s = [] \<or> (\<not> is_space (hd (strip s)) \<and> \<not> is_space (last (strip s)))"
proof (cases "strip s = []")
  case True
  then show ?thesis by simp
next
  case False
  define d where "d = dropWhile is_space s"
  define e where "e = dropWhile is_space (rev d)"
  have s: "strip s = rev e" by (simp add: strip_def d_def e_def)
  have ne: "e \<noteq> []" using False s by simp
  then have "rev d \<noteq> []" unfolding e_def by auto
  then have dne: "d \<noteq> []" by simp
  have "\<not> is_space (hd e)" using ne unfolding e_def by (metis hd_dropWhile)
  then have l: "\<not> is_space (last (strip s))" using ne s by (simp add: last_rev)
  have "last e = last (rev d)" using ne unfolding e_def by (rule last_dropWhile)
  also have "\<dots> = hd d" using dne by (simp add: last_rev)
  finally have "hd (strip s) = hd d" using ne s by (simp add: hd_rev)
  moreover have "\<not> is_space (hd d)" using dne unfolding d_def by (metis hd_dropWhile)
  ultimately show ?thesis using l by simp
qed

lemma strip_fixed:
  assumes "x = [] \<or> (\<not> is_space (hd x) \<and> \<not> is_space (last x))"
  shows "strip x = x"
proof (cases "x = []")
  case True
  then show ?thesis by (simp add: strip_def)
next
  case False
  then obtain c cs where x: "x = c # cs" by (cases x) auto
  from False obtain ys y where y: "x = ys @ [y]" by (cases x rule: rev_cases) auto
  have "dropWhile is_space x = x" using assms x by simp
  moreover have "\<not> is_space y" using assms False y by simp
  then have "dropWhile is_space (rev x) = rev x" using y by simp
  ultimately show ?thesis by (simp add: strip_def)
qed

lemma strip_idem: "strip (strip s) = strip s"
  by (rule strip_fixed) (rule strip_ends)

lemma normalize_company_name_idem:
  "normalize_company_name (normalize_company_name name) = normalize_company_name name"
proof (cases "normalize_company_name name = []")
  case True
  then show ?thesis by (simp add: normalize_company_name_def)
next
  case False
  define r where "r = normalize_company_name name"
  define t where "t = fold (\<lambda>suffix normalized. sub_word suffix None normalized)
                          suffixes (lower name)"
  have ne: "name \<noteq> []" using False by (auto simp: normalize_company_name_def)
  then have r: "r = strip t" by (simp add: r_def t_def normalize_company_name_def)
  have "set r \<subseteq> set (lower name)"
    unfolding r t_def using set_strip set_fold_sub_word by (meson subset_trans)
  then have "\<forall>c \<in> set r. lower_char c = c"
    by (auto simp: lower_def lower_char_idem)
  then have low: "lower r = r" by (simp add: lower_def map_idI)
  have "\<forall>p \<in> set suffixes. \<not> occurs p None r"
    unfolding r_def using normalized_no_suffix by blast
  from fold_no_occurrence [OF this]
  have f: "fold (\<lambda>suffix normalized. sub_word suffix None normalized) suffixes r = r" .
  have rne: "r \<noteq> []" using False by (simp add: r_def)
  have "normalize_company_name r
          = strip (fold (\<lambda>suffix normalized. sub_word suffix None normalized)
                        suffixes (lower r))"
    unfolding normalize_company_name_def [of r] using rne by simp
  also have "\<dots> = strip r" unfolding low f ..
  also have "\<dots> = r" unfolding r by (rule strip_idem)
  finally show ?thesis unfolding r_def .
qed

subsection \<open>Noise-word filtering\<close>

lemma split_ws_Nil: "split_ws [] = []"
  by (simp add: split_ws.simps)

lemma split_ws_space: "is_space c \<Longrightarrow> split_ws (c # s) = split_ws s"
  by (subst split_ws.simps, subst (2) split_ws.simps) simp

lemma split_ws_token:
  assumes "token w" and "s = [] \<or> is_space (hd s)"
  shows "split_ws (w @ s) = w # split_ws s"
proof -
  from assms(1) obtain c cs where w: "w = c # cs" "\<not> is_space c"
    by (cases w) (auto simp: token_def)
  have all: "\<forall>x \<in> set w. \<not> is_space x" using assms(1) by (simp add: token_def list_all_iff)
  have d: "dropWhile is_space (w @ s) = c # (cs @ s)" using w by simp
  have "takeWhile (\<lambda>x. \<not> is_space x) (w @ s) = w @ takeWhile (\<lambda>x. \<not> is_space x) s"
    using all by (simp add: takeWhile_append2)
  moreover have "takeWhile (\<lambda>x. \<not> is_space x) s = []" using assms(2) by (cases s) auto
  ultimately have t: "takeWhile (\<lambda>x. \<not> is_space x) (c # (cs @ s)) = w" using w(1) by simp
  have "dropWhile (\<lambda>x. \<not> is_space x) (w @ s) = dropWhile (\<lambda>x. \<not> is_space x) s"
    using all by (simp add: dropWhile_append2)
  moreover have "dropWhile (\<lambda>x. \<not> is_space x) s = s" using assms(2) by (cases s) auto
  ultimately have r: "dropWhile (\<lambda>x. \<not> is_space x) (c # (cs @ s)) = s" using w(1) by simp
  show ?thesis
    by (subst split_ws.simps) (simp only: d t r list.case)
qed

lemma split_ws_tokens: "\<forall>w \<in> set (split_ws s). token w"
proof (induction s rule: split_ws.induct)
  case (1 s)
  show ?case
  proof (cases "dropWhile is_space s")
    case Nil
    have "split_ws s = []" by (subst split_ws.simps) (simp only: Nil list.case)
    then show ?thesis by simp
  next
    case (Cons c cs)
    have c: "\<not> is_space c"
      using Cons hd_dropWhile [of is_space s] by (metis list.sel(1) list.distinct(1))
    have t: "token (takeWhile (\<lambda>x. \<not> is_space x) (c # cs))"
      using c unfolding token_def list_all_iff by (auto dest: set_takeWhileD)
    have e: "split_ws s = takeWhile (\<lambda>x. \<not> is_space x) (c # cs)
                           # split_ws (dropWhile (\<lambda>x. \<not> is_space x) (c # cs))"
      by (subst split_ws.simps) (simp only: Cons list.case)
    show ?thesis unfolding e using t 1 [OF Cons] by simp
  qed
qed

lemma split_join:
  "\<forall>w \<in> set ws. token w \<Longrightarrow> split_ws (join_sp ws) = ws"
proof (induction ws rule: join_sp.induct)
  case 1
  show ?case by (simp add: split_ws_Nil)
next
  case (2 w)
  then show ?case using split_ws_token [of w "[]"] by (simp add: split_ws_Nil)
next
  case (3 w v ws)
  have sp: "is_space CHR '' ''" by (simp add: is_space_def)
  have "split_ws (w @ CHR '' '' # join_sp (v # ws)) = w # split_ws (CHR '' '' # join_sp (v # ws))"
    using 3(2) sp by (intro split_ws_token) simp_all
  then show ?case using 3 sp by (simp add: split_ws_space)
qed

lemma normalize_text_idem: "normalize_text (normalize_text s) = normalize_text s"
proof (cases "s = []")
  case True
  then show ?thesis by (simp add: normalize_text_def)
next
  case False
  define ws where "ws = filter (\<lambda>w. w \<notin> set noise_words) (split_ws s)"
  have r: "normalize_text s = join_sp ws" using False by (simp add: normalize_text_def ws_def)
  have "\<forall>w \<in> set ws. token w" using split_ws_tokens [of s] by (simp add: ws_def)
  then have "split_ws (join_sp ws) = ws" by (rule split_join)
  moreover have "filter (\<lambda>w. w \<notin> set noise_words) ws = ws" by (simp add: ws_def)
  ultimately show ?thesis unfolding r by (simp add: normalize_text_def)
qed

lemma clean_text_twice:
  "clean_text ''a, b'' = ''a  b''" "clean_text ''a  b'' = ''a b''"
  by code_simp+

lemma company_pipeline_twice:
  "normalize_company_name (clean_text ''a ltd b'') = ''a  b''"
  "normalize_company_name (clean_text ''a  b'') = ''a b''"
  by code_simp+

lemma clean_text_changes: "clean_text (clean_text ''a, b'') \<noteq> clean_text ''a, b''"
  unfolding clean_text_twice by simp

lemma company_pipeline_changes:
  "normalize_company_name (clean_text (normalize_company_name (clean_text ''a ltd b'')))
     \<noteq> normalize_company_name (clean_text ''a ltd b'')"
  unfolding company_pipeline_twice by simp

text \<open>
  C6. \<^verbatim>\<open>_clean_text\<close> is not idempotent: it collapses whitespace before it turns special
  characters into spaces, so \<open>a, b\<close> is cleaned to \<open>a  b\<close> (two spaces) and that to
  \<open>a b\<close>; the company column, cleaned and then normalised, changes on a second pass in the
  same way. \<^verbatim>\<open>_normalize_text\<close> and \<^verbatim>\<open>_normalize_company_name\<close> are idempotent.
\<close>

theorem clean_text_not_idempotent:
  "clean_text (clean_text ''a, b'') \<noteq> clean_text ''a, b''
   \<and> normalize_company_name (clean_text (normalize_company_name (clean_text ''a ltd b'')))
       \<noteq> normalize_company_name (clean_text ''a ltd b'')
   \<and> (\<forall>s. normalize_text (normalize_text s) = normalize_text s)
   \<and> (\<forall>name. normalize_company_name (normalize_company_name name)
               = normalize_company_name name)"
  using clean_text_changes company_pipeline_changes normalize_text_idem
    normalize_company_name_idem by blast

end
